theory Spec2Isabelle
  imports Complex_Main
begin

section \<open>Data model (types.ts)\<close>

datatype GemType = RED | BLUE | GREEN | YELLOW | PURPLE | ORANGE | DIAMOND | STAR | RAINBOW

datatype SpecialType = NONE | ROW_BLAST | COL_BLAST | AREA_BLAST | RAINBOW_special

datatype CellStatus = IDLE | SWAPPING | MATCHED | DROPPING | EMPTY | CREATED

record Position =
  row :: int
  col :: int

record Cell = Position +
  id :: string
  type :: "GemType option"
  special :: SpecialType
  status :: CellStatus
  visualRow :: int
  visualCol :: int
  isBonus :: "bool option"

definition GRID_ROWS :: nat where "GRID_ROWS = 8"
definition GRID_COLS :: nat where "GRID_COLS = 8"

text \<open>
  A board is the array of rows \<open>Cell[][]\<close>. Every board the program builds has
  \<open>GRID_ROWS\<close> rows of \<open>GRID_COLS\<close> cells; a read outside the array gives
  \<open>undefined\<close> in the source and the property access on it throws, so the
  theorems below are stated for boards of that shape.
\<close>

definition gridShape :: "Cell list list \<Rightarrow> bool" where
  "gridShape board \<longleftrightarrow>
     length board = GRID_ROWS \<and> (\<forall>r \<in> set board. length r = GRID_COLS)"

text \<open>The interface declares \<open>type: GemType\<close>: on a typed board no cell has \<open>undefined\<close> as its type.\<close>

definition typedBoard :: "Cell list list \<Rightarrow> bool" where
  "typedBoard board \<longleftrightarrow> (\<forall>cell \<in> set (concat board). type cell \<noteq> None)"


definition distinctIds :: "Cell list list \<Rightarrow> bool" where
  "distinctIds board \<longleftrightarrow> distinct (map id (concat board))"

section \<open>Match detection (gameLogic.ts, findMatches)\<close>

text \<open>
  A JavaScript \<open>Set\<close> keeps its elements in insertion order, and \<open>resolveBoard\<close> iterates over
  the set of matches. A set that is iterated is modelled as a list without repetition, with
  \<open>add\<close> appending an absent element; a set that is only asked for membership is a HOL set.
\<close>

definition setAdd :: "'a \<Rightarrow> 'a list \<Rightarrow> 'a list" where
  "setAdd x xs = (if x \<in> set xs then xs else xs @ [x])"

text \<open>The inner \<open>while\<close> of the horizontal scan: extend the run rightwards from column \<open>k\<close>.\<close>

function extendRow ::
  "Cell list list \<Rightarrow> nat \<Rightarrow> GemType option \<Rightarrow> nat \<Rightarrow> string list \<Rightarrow> string list" where
  "extendRow board r ty k matchedIds =
     (if k < GRID_COLS \<and> type (board ! r ! k) = ty
      then extendRow board r ty (Suc k) (setAdd (id (board ! r ! k)) matchedIds)
      else matchedIds)"
  by pat_completeness auto
termination
  by (relation "measure (\<lambda>(board, r, ty, k, m). GRID_COLS - k)") auto

declare extendRow.simps [simp del]

text \<open>The inner \<open>while\<close> of the vertical scan: extend the run downwards from row \<open>k\<close>.\<close>

function extendCol ::
  "Cell list list \<Rightarrow> nat \<Rightarrow> GemType option \<Rightarrow> nat \<Rightarrow> string list \<Rightarrow> string list" where
  "extendCol board c ty k matchedIds =
     (if k < GRID_ROWS \<and> type (board ! k ! c) = ty
      then extendCol board c ty (Suc k) (setAdd (id (board ! k ! c)) matchedIds)
      else matchedIds)"
  by pat_completeness auto
termination
  by (relation "measure (\<lambda>(board, c, ty, k, m). GRID_ROWS - k)") auto

declare extendCol.simps [simp del]

text \<open>Body of the horizontal loops at \<open>(r, c)\<close>; \<open>ty \<noteq> None\<close> is \<open>type !== undefined\<close>.\<close>

definition matchRowAt :: "Cell list list \<Rightarrow> nat \<Rightarrow> nat \<Rightarrow> string list \<Rightarrow> string list" where
  "matchRowAt board r c matchedIds =
     (let ty = type (board ! r ! c) in
      if ty \<noteq> None \<and> type (board ! r ! (c + 1)) = ty \<and> type (board ! r ! (c + 2)) = ty
      then extendRow board r ty (c + 3)
             (setAdd (id (board ! r ! (c + 2)))
               (setAdd (id (board ! r ! (c + 1)))
                 (setAdd (id (board ! r ! c)) matchedIds)))
      else matchedIds)"

definition matchColAt :: "Cell list list \<Rightarrow> nat \<Rightarrow> nat \<Rightarrow> string list \<Rightarrow> string list" where
  "matchColAt board r c matchedIds =
     (let ty = type (board ! r ! c) in
      if ty \<noteq> None \<and> type (board ! (r + 1) ! c) = ty \<and> type (board ! (r + 2) ! c) = ty
      then extendCol board c ty (r + 3)
             (setAdd (id (board ! (r + 2) ! c))
               (setAdd (id (board ! (r + 1) ! c))
                 (setAdd (id (board ! r ! c)) matchedIds)))
      else matchedIds)"

definition findMatches :: "Cell list list \<Rightarrow> string list" where
  "findMatches board =
     (let horizontal =
            fold (\<lambda>r. fold (\<lambda>c. matchRowAt board r c) [0..<GRID_COLS - 2]) [0..<GRID_ROWS] []
      in fold (\<lambda>c. fold (\<lambda>r. matchColAt board r c) [0..<GRID_ROWS - 2]) [0..<GRID_COLS]
           horizontal)"

text \<open>
  The specification's notion of a run: \<open>len \<ge> 3\<close> consecutive slots of one row (or one
  column), starting at slot \<open>s\<close>, whose cells all have the same token type.
\<close>

definition rowRun :: "Cell list list \<Rightarrow> nat \<Rightarrow> nat \<Rightarrow> nat \<Rightarrow> bool" where
  "rowRun board r s len \<longleftrightarrow>
     3 \<le> len \<and> s + len \<le> GRID_COLS \<and>
     (\<forall>j \<in> {s..<s + len}. type (board ! r ! j) = type (board ! r ! s))"

definition colRun :: "Cell list list \<Rightarrow> nat \<Rightarrow> nat \<Rightarrow> nat \<Rightarrow> bool" where
  "colRun board c s len \<longleftrightarrow>
     3 \<le> len \<and> s + len \<le> GRID_ROWS \<and>
     (\<forall>j \<in> {s..<s + len}. type (board ! j ! c) = type (board ! s ! c))"

definition inRun :: "Cell list list \<Rightarrow> nat \<Rightarrow> nat \<Rightarrow> bool" where
  "inRun board r c \<longleftrightarrow>
     (\<exists>s \<in> {0..<GRID_COLS}. \<exists>len \<in> {0..GRID_COLS}. s \<le> c \<and> c < s + len \<and> rowRun board r s len) \<or>
     (\<exists>s \<in> {0..<GRID_ROWS}. \<exists>len \<in> {0..GRID_ROWS}. s \<le> r \<and> r < s + len \<and> colRun board c s len)"

text \<open>Building boards for the worked examples: slot \<open>(r, c)\<close> gets the two digits \<open>rc\<close> as its identifier.\<close>

definition mkCell :: "nat \<Rightarrow> nat \<Rightarrow> GemType \<Rightarrow> Cell" where
  "mkCell r c t =
     \<lparr>row = int r, col = int c, id = [''01234567'' ! r, ''01234567'' ! c], type = Some t,
      special = NONE, status = IDLE, visualRow = int r, visualCol = int c, isBonus = None\<rparr>"

definition mkBoard :: "GemType list list \<Rightarrow> Cell list list" where
  "mkBoard rows = map (\<lambda>(r, ts). map (\<lambda>(c, t). mkCell r c t) (enumerate 0 ts)) (enumerate 0 rows)"

definition exampleBoard :: "Cell list list" where
  "exampleBoard = mkBoard
     [[RED, BLUE, RED, BLUE, RED, BLUE, RED, BLUE],
      [BLUE, RED, BLUE, RED, BLUE, RED, BLUE, RED],
      [GREEN, GREEN, GREEN, GREEN, YELLOW, GREEN, YELLOW, GREEN],
      [BLUE, RED, BLUE, RED, BLUE, RED, BLUE, RED],
      [RED, BLUE, RED, BLUE, RED, BLUE, RED, BLUE],
      [BLUE, RED, BLUE, RED, BLUE, RED, BLUE, RED],
      [RED, BLUE, RED, BLUE, RED, BLUE, RED, BLUE],
      [BLUE, RED, BLUE, RED, BLUE, RED, BLUE, RED]]"

text \<open>Proof vocabulary for the scans: the slots \<open>j \<ge> k\<close> below \<open>n\<close> reached from \<open>k\<close> while \<open>f\<close> stays \<open>ty\<close>.\<close>

definition sameUpTo :: "(nat \<Rightarrow> 'a) \<Rightarrow> 'a \<Rightarrow> nat \<Rightarrow> nat \<Rightarrow> nat set" where
  "sameUpTo f ty k n = {j. k \<le> j \<and> j < n \<and> (\<forall>i. k \<le> i \<and> i \<le> j \<longrightarrow> f i = ty)}"

text \<open>What one iteration of a scan marks: nothing unless the three slots from \<open>c\<close> hold one defined type; then every slot reached from \<open>c\<close> without a change of type.\<close>
definition hits :: "(nat \<Rightarrow> 'a option) \<Rightarrow> nat \<Rightarrow> nat \<Rightarrow> nat set" where
  "hits f n c = (if f c \<noteq> None \<and> f (c + 1) = f c \<and> f (c + 2) = f c
                 then sameUpTo f (f c) c n else {})"

section \<open>Group classification (gameLogic.ts, classifyMatchGroup)\<close>

text \<open>
  The source returns the object \<open>{ special }\<close>, which its caller destructures at once; the
  model returns the field. \<open>rows.size\<close> is the number of distinct \<open>row\<close> values.
\<close>

definition classifyMatchGroup :: "Cell list \<Rightarrow> SpecialType" where
  "classifyMatchGroup grp =
     (if length grp < 4 then NONE
      else if length grp \<ge> 5 then
        (let rows = set (map row grp); cols = set (map col grp) in
         if card rows = 1 \<or> card cols = 1 then RAINBOW_special else AREA_BLAST)
      else
        (let rows = set (map row grp); cols = set (map col grp) in
         if card rows = 1 then COL_BLAST
         else if card cols = 1 then ROW_BLAST
         else NONE))"




text \<open>Example groups: cells of the given type at the listed slots.\<close>

definition cellsAt :: "(nat \<times> nat) list \<Rightarrow> Cell list" where
  "cellsAt ps = map (\<lambda>(r, c). mkCell r c GREEN) ps"

section \<open>Randomness and identifiers\<close>

text \<open>
  \<open>Math.random()\<close> is an oracle: its \<open>n\<close>-th call returns the draw \<open>rnd n\<close>, and every
  function that draws takes the number of calls made so far and returns the new count. A draw
  in \<open>[0, 1)\<close> is kept as the decimal digits after the point, \<open>0.d\<^sub>1d\<^sub>2\<dots>\<close>, which is also
  how a template string prints it. Floating-point rounding is outside the model:
  \<open>Math.floor(x * n)\<close> is computed exactly.
\<close>

type_synonym draw = "nat list"
type_synonym rng = "nat \<Rightarrow> draw"

definition digitChar :: "nat \<Rightarrow> char" where
  "digitChar d = ''0123456789'' ! (d mod 10)"

definition floorTimes :: "draw \<Rightarrow> nat \<Rightarrow> nat" where
  "floorTimes x n = (foldl (\<lambda>a d. 10 * a + d) 0 x * n) div 10 ^ length x"

definition showRandom :: "draw \<Rightarrow> string" where
  "showRandom x = ''0.'' @ map digitChar x"

fun showNat :: "nat \<Rightarrow> string" where
  "showNat n = (if n < 10 then [digitChar n] else showNat (n div 10) @ [digitChar (n mod 10)])"

declare showNat.simps [simp del]

text \<open>\<open>allowedTypes[Math.floor(Math.random() * allowedTypes.length)]\<close>; a read past the end is \<open>undefined\<close>.\<close>

definition pickType :: "GemType list \<Rightarrow> draw \<Rightarrow> GemType option" where
  "pickType allowedTypes x =
     (let i = floorTimes x (length allowedTypes)
      in if i < length allowedTypes then Some (allowedTypes ! i) else None)"

section \<open>Gravity and refill (gameLogic.ts, applyGravity)\<close>

text \<open>The assignment \<open>board[r][c] = x\<close>.\<close>

definition setCell :: "Cell list list \<Rightarrow> nat \<Rightarrow> nat \<Rightarrow> Cell \<Rightarrow> Cell list list" where
  "setCell board r c x = board[r := (board ! r)[c := x]]"

text \<open>
  The scan of column \<open>c\<close> from the bottom row up: \<open>dropColumn c k\<close> runs the iterations
  \<open>r = k - 1, \<dots>, 0\<close> on the state \<open>(newBoard, emptySlots, movesDetected, n)\<close>.
\<close>

fun dropColumn ::
  "nat \<Rightarrow> nat \<Rightarrow> rng \<Rightarrow> Cell list list \<times> nat \<times> bool \<times> nat \<Rightarrow>
   Cell list list \<times> nat \<times> bool \<times> nat" where
  "dropColumn c 0 rnd st = st"
| "dropColumn c (Suc r) rnd (newBoard, emptySlots, movesDetected, n) =
     dropColumn c r rnd
       (if status (newBoard ! r ! c) = MATCHED \<or> status (newBoard ! r ! c) = EMPTY
        then (setCell newBoard r c ((newBoard ! r ! c)\<lparr>status := EMPTY\<rparr>),
              emptySlots + 1, movesDetected, n)
        else if emptySlots > 0
        then (let cell = newBoard ! r ! c;
                  moved = setCell newBoard (r + emptySlots) c
                            (cell\<lparr>row := int (r + emptySlots), status := DROPPING,
                                  visualRow := int r\<rparr>);
                  vacated = setCell moved r c
                            \<lparr>row = int r, col = int c,
                             id = ''temp-'' @ showNat r @ ''-'' @ showNat c @ ''-'' @ showRandom (rnd n),
                             type = Some RED, special = NONE, status = EMPTY,
                             visualRow = int r, visualCol = int c, isBonus = None\<rparr>
              in (vacated, emptySlots, True, n + 1))
        else (newBoard, emptySlots, movesDetected, n))"

text \<open>One iteration of the refill loop: the type is drawn first, then the identifier.\<close>

definition fillSlot ::
  "GemType list \<Rightarrow> rng \<Rightarrow> nat \<Rightarrow> nat \<Rightarrow> nat \<Rightarrow> Cell list list \<times> nat \<Rightarrow>
   Cell list list \<times> nat" where
  "fillSlot allowedTypes rnd c emptySlots r st =
     (case st of (newBoard, n) \<Rightarrow>
        let ty = pickType allowedTypes (rnd n)
        in (setCell newBoard r c
              \<lparr>row = int r, col = int c,
               id = ''new-'' @ showNat c @ ''-'' @ showRandom (rnd (n + 1)),
               type = ty,
               special = (if ty = Some RAINBOW then RAINBOW_special else NONE),
               status = DROPPING,
               visualRow = int r - int emptySlots, visualCol = int c, isBonus = None\<rparr>,
            n + 2))"

text \<open>The body of the loop over the columns.\<close>

definition gravityColumn ::
  "GemType list \<Rightarrow> rng \<Rightarrow> nat \<Rightarrow> Cell list list \<times> bool \<times> nat \<Rightarrow>
   Cell list list \<times> bool \<times> nat" where
  "gravityColumn allowedTypes rnd c st =
     (case st of (board0, moves0, n0) \<Rightarrow>
        case dropColumn c GRID_ROWS rnd (board0, 0, moves0, n0) of
          (dropped, emptySlots, moves1, n1) \<Rightarrow>
            case fold (fillSlot allowedTypes rnd c emptySlots) [0..<emptySlots] (dropped, n1) of
              (filled, n2) \<Rightarrow> (filled, moves1 \<or> emptySlots > 0, n2))"

record GravityResult =
  newBoard :: "Cell list list"
  movesDetected :: bool

text \<open>
  \<open>applyGravity\<close> works on a copy of its argument (\<open>board.map(row => row.map(cell => ({...cell})))\<close>),
  which in the model is the argument itself. It returns the result and the new count of calls.
\<close>

definition applyGravity ::
  "Cell list list \<Rightarrow> GemType list \<Rightarrow> rng \<Rightarrow> nat \<Rightarrow> GravityResult \<times> nat" where
  "applyGravity board allowedTypes rnd n =
     (case fold (gravityColumn allowedTypes rnd) [0..<GRID_COLS] (board, False, n) of
        (b, moves, n') \<Rightarrow> (\<lparr>newBoard = b, movesDetected = moves\<rparr>, n'))"

text \<open>Column \<open>c\<close> of a board from the top row down, and the tokens that gravity keeps.\<close>

definition column :: "Cell list list \<Rightarrow> nat \<Rightarrow> Cell list" where
  "column board c = map (\<lambda>r. board ! r ! c) [0..<GRID_ROWS]"

definition vacant :: "Cell \<Rightarrow> bool" where
  "vacant cell \<longleftrightarrow> status cell = MATCHED \<or> status cell = EMPTY"

definition survivors :: "Cell list \<Rightarrow> Cell list" where
  "survivors cells = filter (\<lambda>cell. \<not> vacant cell) cells"

text \<open>What identifies a token: its identifier, its type and its special kind.\<close>

definition token :: "Cell \<Rightarrow> string \<times> GemType option \<times> SpecialType" where
  "token cell = (id cell, type cell, special cell)"

text \<open>
  Invariant of the scan of column \<open>c\<close> when the rows \<open>k, \<dots>, GRID_ROWS - 1\<close> of the board
  \<open>b\<close> have been visited and \<open>e\<close> vacant slots counted: the other columns and the rows
  above \<open>k\<close> are as in \<open>b\<close>, the slots \<open>k, \<dots>, k + e - 1\<close> are marked empty, and the slots
  from \<open>k + e\<close> down hold the surviving tokens of the visited rows in their order.
\<close>

definition scanInv :: "Cell list list \<Rightarrow> nat \<Rightarrow> nat \<Rightarrow> Cell list list \<Rightarrow> nat \<Rightarrow> bool" where
  "scanInv b c k nb e \<longleftrightarrow>
     gridShape nb \<and> k + e \<le> GRID_ROWS \<and>
     (\<forall>r c'. c' \<noteq> c \<longrightarrow> nb ! r ! c' = b ! r ! c') \<and>
     (\<forall>r < k. nb ! r ! c = b ! r ! c) \<and>
     (\<forall>r. k \<le> r \<and> r < k + e \<longrightarrow> status (nb ! r ! c) = EMPTY) \<and>
     (\<forall>r. k + e \<le> r \<and> r < GRID_ROWS \<longrightarrow> \<not> vacant (nb ! r ! c)) \<and>
     map token (map (\<lambda>r. nb ! r ! c) [k + e..<GRID_ROWS]) =
       map token (survivors (map (\<lambda>r. b ! r ! c) [k..<GRID_ROWS]))"

text \<open>A slot refilled by gravity: a dropping cell at its slot, with a generated identifier and a drawn type.\<close>

definition refilled :: "GemType list \<Rightarrow> rng \<Rightarrow> nat \<Rightarrow> nat \<Rightarrow> Cell \<Rightarrow> bool" where
  "refilled allowedTypes rnd r c cell \<longleftrightarrow>
     status cell = DROPPING \<and> row cell = int r \<and> col cell = int c \<and>
     (\<exists>n. type cell = pickType allowedTypes (rnd n) \<and>
          id cell = ''new-'' @ showNat c @ ''-'' @ showRandom (rnd (n + 1)))"

text \<open>
  What gravity does to one column, read from the top: the surviving tokens of the column come
  last, in their order, below as many refilled slots as the column had vacant ones, and no
  slot is left vacant.
\<close>

definition columnPost :: "GemType list \<Rightarrow> rng \<Rightarrow> nat \<Rightarrow> Cell list \<Rightarrow> Cell list \<Rightarrow> bool" where
  "columnPost allowedTypes rnd c before after \<longleftrightarrow>
     length after = GRID_ROWS \<and>
     map token (drop (GRID_ROWS - length (survivors before)) after) = map token (survivors before) \<and>
     (\<forall>r < GRID_ROWS - length (survivors before). refilled allowedTypes rnd r c (after ! r)) \<and>
     (\<forall>cell \<in> set after. \<not> vacant cell)"

text \<open>The number of occupied cells of a column: those whose status is neither \<open>MATCHED\<close> nor \<open>EMPTY\<close>.\<close>

definition occupiedCount :: "Cell list list \<Rightarrow> nat \<Rightarrow> nat" where
  "occupiedCount board c = length (survivors (column board c))"

text \<open>The example board after its green cells were marked as matched, level 1's types, and an oracle.\<close>

definition clearedBoard :: "Cell list list" where
  "clearedBoard =
     map (map (\<lambda>cell. if type cell = Some GREEN then cell\<lparr>status := MATCHED\<rparr> else cell)) exampleBoard"

definition levelOneTypes :: "GemType list" where
  "levelOneTypes = [RED, BLUE, GREEN, YELLOW, PURPLE]"

definition exampleRnd :: rng where
  "exampleRnd n = [n mod 10, 5]"

section \<open>Connected groups (gameLogic.ts, getConnectedGroups)\<close>

text \<open>The identifiers found on the grid.\<close>

definition boardIds :: "Cell list list \<Rightarrow> string set" where
  "boardIds board = (\<Union>r \<in> {0..<GRID_ROWS}. \<Union>c \<in> {0..<GRID_COLS}. {id (board ! r ! c)})"

text \<open>The four neighbours of a cell, in the order the source lists them, from its stored coordinates.\<close>

definition neighbors :: "Cell \<Rightarrow> (int \<times> int) list" where
  "neighbors current =
     [(row current - 1, col current), (row current + 1, col current),
      (row current, col current - 1), (row current, col current + 1)]"

text \<open>Body of the loop over the neighbours, on the state \<open>(visited, queue)\<close>.\<close>

definition visitNeighbor ::
  "Cell list list \<Rightarrow> string set \<Rightarrow> Cell \<Rightarrow> int \<times> int \<Rightarrow> string set \<times> Cell list \<Rightarrow>
   string set \<times> Cell list" where
  "visitNeighbor board matchedIds current n st =
     (case (n, st) of ((r, c), (visited, queue)) \<Rightarrow>
        if r \<ge> 0 \<and> r < int GRID_ROWS \<and> c \<ge> 0 \<and> c < int GRID_COLS
        then (let neighbor = board ! nat r ! nat c in
              if id neighbor \<in> matchedIds \<and> id neighbor \<notin> visited \<and> type neighbor = type current
              then (insert (id neighbor) visited, queue @ [neighbor])
              else (visited, queue))
        else (visited, queue))"

text \<open>
  The breadth-first \<open>while\<close> loop on \<open>(visited, queue, group)\<close>. It ends because every cell it
  queues adds an identifier of the grid to \<open>visited\<close>.
\<close>

function floodFill ::
  "Cell list list \<Rightarrow> string set \<Rightarrow> string set \<times> Cell list \<times> Cell list \<Rightarrow> string set \<times> Cell list" where
  "floodFill board matchedIds (visited, [], grp) = (visited, grp)"
| "floodFill board matchedIds (visited, current # rest, grp) =
     floodFill board matchedIds
       (fst (fold (visitNeighbor board matchedIds current) (neighbors current) (visited, rest)),
        snd (fold (visitNeighbor board matchedIds current) (neighbors current) (visited, rest)),
        grp @ [current])"
  by pat_completeness auto

lemma finite_boardIds: "finite (boardIds board)"
  by (simp add: boardIds_def)

lemma visitNeighbor_effect:
  assumes "visitNeighbor board matchedIds current n (visited, queue) = (visited', queue')"
  shows "(visited' = visited \<and> queue' = queue) \<or>
         (\<exists>x. x \<notin> set queue \<or> True) \<and>
         (\<exists>x. id x \<in> boardIds board \<and> id x \<in> matchedIds \<and> id x \<notin> visited \<and> type x = type current \<and>
              visited' = insert (id x) visited \<and> queue' = queue @ [x])"
proof (cases n)
  case (Pair r c)
  show ?thesis
  proof (cases "r \<ge> 0 \<and> r < int GRID_ROWS \<and> c \<ge> 0 \<and> c < int GRID_COLS")
    case False
    then show ?thesis using assms Pair by (auto simp: visitNeighbor_def)
  next
    case True
    then have "nat r \<in> {0..<GRID_ROWS}" "nat c \<in> {0..<GRID_COLS}" by auto
    then have "id (board ! nat r ! nat c) \<in> boardIds board" unfolding boardIds_def by blast
    then show ?thesis using assms Pair True
      by (auto simp: visitNeighbor_def Let_def split: if_splits)
  qed
qed

text \<open>What a run over some neighbours adds to the queue and to \<open>visited\<close>.\<close>

lemma visit_fold:
  assumes "fold (visitNeighbor board matchedIds current) ns (visited, queue) = (visited', queue')"
  shows "\<exists>pushed. queue' = queue @ pushed \<and> visited' = visited \<union> set (map id pushed) \<and>
           distinct (map id pushed) \<and> set (map id pushed) \<inter> visited = {} \<and>
           (\<forall>x \<in> set pushed. id x \<in> boardIds board \<and> id x \<in> matchedIds \<and> type x = type current)"
  using assms
proof (induction ns arbitrary: visited queue)
  case Nil
  then show ?case by auto
next
  case (Cons n ns)
  obtain v1 q1 where one: "visitNeighbor board matchedIds current n (visited, queue) = (v1, q1)"
    by (cases "visitNeighbor board matchedIds current n (visited, queue)")
  then have rest: "fold (visitNeighbor board matchedIds current) ns (v1, q1) = (visited', queue')"
    using Cons.prems by simp
  from Cons.IH[OF rest] obtain pushed where p:
    "queue' = q1 @ pushed" "visited' = v1 \<union> set (map id pushed)"
    "distinct (map id pushed)" "set (map id pushed) \<inter> v1 = {}"
    "\<forall>x \<in> set pushed. id x \<in> boardIds board \<and> id x \<in> matchedIds \<and> type x = type current"
    by blast
  from visitNeighbor_effect[OF one] consider
    (same) "v1 = visited" "q1 = queue"
  | (push) x where "id x \<in> boardIds board" "id x \<in> matchedIds" "id x \<notin> visited"
      "type x = type current" "v1 = insert (id x) visited" "q1 = queue @ [x]"
    by blast
  then show ?case
  proof cases
    case same
    then show ?thesis using p by blast
  next
    case push
    let ?pushed = "x # pushed"
    have "queue' = queue @ ?pushed" using p(1) push by simp
    moreover have "visited' = visited \<union> set (map id ?pushed)" using p(2) push by auto
    moreover have "distinct (map id ?pushed)" using p(3,4) push by auto
    moreover have "set (map id ?pushed) \<inter> visited = {}" using p(4) push by auto
    moreover have "\<forall>y \<in> set ?pushed. id y \<in> boardIds board \<and> id y \<in> matchedIds \<and> type y = type current"
      using p(5) push by auto
    ultimately show ?thesis by blast
  qed
qed

lemma visit_fold_measure:
  assumes "fold (visitNeighbor board matchedIds current) ns (visited, queue) = (visited', queue')"
  shows "card (boardIds board - visited') + length queue' = card (boardIds board - visited) + length queue"
proof -
  from visit_fold[OF assms] obtain pushed where p:
    "queue' = queue @ pushed" "visited' = visited \<union> set (map id pushed)"
    "distinct (map id pushed)" "set (map id pushed) \<inter> visited = {}"
    "\<forall>x \<in> set pushed. id x \<in> boardIds board \<and> id x \<in> matchedIds \<and> type x = type current"
    by blast
  let ?P = "set (map id pushed)"
  have sub: "?P \<subseteq> boardIds board - visited" using p(4,5) by auto
  have "boardIds board - visited' = (boardIds board - visited) - ?P" using p(2) by auto
  then have "card (boardIds board - visited') = card (boardIds board - visited) - card ?P"
    using sub finite_boardIds by (simp add: card_Diff_subset finite_subset)
  moreover have "card ?P \<le> card (boardIds board - visited)"
    using sub finite_boardIds by (simp add: card_mono)
  moreover have "card ?P = length pushed" using p(3) distinct_card by fastforce
  ultimately show ?thesis using p(1) by simp
qed

termination floodFill
proof (relation "measure (\<lambda>(board, matchedIds, visited, queue, grp).
          card (boardIds board - visited) + length queue)")
  show "wf (measure (\<lambda>(board, matchedIds, visited, queue, grp).
          card (boardIds board - visited) + length queue))" by simp
next
  fix board :: "Cell list list" and matchedIds visited current rest and grp :: "Cell list"
  let ?res = "fold (visitNeighbor board matchedIds current) (neighbors current) (visited, rest)"
  have "?res = (fst ?res, snd ?res)" by simp
  from visit_fold_measure[OF this]
  show "((board, matchedIds, fst ?res, snd ?res, grp @ [current]),
         (board, matchedIds, visited, current # rest, grp))
        \<in> measure (\<lambda>(board, matchedIds, visited, queue, grp).
          card (boardIds board - visited) + length queue)"
    by simp
qed

text \<open>
  Body of the loops over the slots, on the state \<open>(visited, groups)\<close>: a matched cell not
  yet visited seeds a new group.
\<close>

definition scanSeed ::
  "Cell list list \<Rightarrow> string set \<Rightarrow> nat \<times> nat \<Rightarrow> string set \<times> Cell list list \<Rightarrow>
   string set \<times> Cell list list" where
  "scanSeed board matchedIds p st =
     (case (p, st) of ((r, c), (visited, groups)) \<Rightarrow>
        let cell = board ! r ! c in
        if id cell \<in> matchedIds \<and> id cell \<notin> visited
        then (case floodFill board matchedIds (insert (id cell) visited, [cell], []) of
                (visited', grp) \<Rightarrow> (visited', groups @ [grp]))
        else (visited, groups))"

definition getConnectedGroups :: "Cell list list \<Rightarrow> string set \<Rightarrow> Cell list list" where
  "getConnectedGroups board matchedIds =
     snd (fold (\<lambda>r. fold (\<lambda>c. scanSeed board matchedIds (r, c)) [0..<GRID_COLS]) [0..<GRID_ROWS]
            ({}, []))"

text \<open>
  Invariant of the loops over the slots: the cells grouped so far carry pairwise distinct
  identifiers, \<open>visited\<close> is the set of these identifiers, all of them are matched
  identifiers of the grid, and every group has one token type.
\<close>

definition groupsInv :: "Cell list list \<Rightarrow> string set \<Rightarrow> string set \<times> Cell list list \<Rightarrow> bool" where
  "groupsInv board matchedIds st \<longleftrightarrow>
     (case st of (visited, groups) \<Rightarrow>
        distinct (map id (concat groups)) \<and>
        set (map id (concat groups)) = visited \<and>
        visited \<subseteq> matchedIds \<inter> boardIds board \<and>
        (\<forall>grp \<in> set groups. \<exists>t. \<forall>x \<in> set grp. type x = t))"

section \<open>Initial board (gameLogic.ts, createInitialBoard)\<close>

text \<open>
  The \<open>do \<dots> while\<close> loop of slot \<open>(r, c)\<close>: draw a type until it does not repeat the two
  cells to the left in the row under construction, nor the two cells above in the rows built
  so far. Nothing bounds the number of draws, so the loop is a partial function: \<open>None\<close>
  means that it never exits. It returns the type and the new count of draws.
\<close>

partial_function (option) drawType ::
  "GemType list \<Rightarrow> rng \<Rightarrow> Cell list list \<Rightarrow> Cell list \<Rightarrow> nat \<Rightarrow> nat \<Rightarrow> nat \<Rightarrow>
   (GemType option \<times> nat) option" where
  "drawType allowedTypes rnd board rowCells r c n =
     (let ty = pickType allowedTypes (rnd n) in
      if (c \<ge> 2 \<and> type (rowCells ! (c - 1)) = ty \<and> type (rowCells ! (c - 2)) = ty) \<or>
         (r \<ge> 2 \<and> type (board ! (r - 1) ! c) = ty \<and> type (board ! (r - 2) ! c) = ty)
      then drawType allowedTypes rnd board rowCells r c (n + 1)
      else Some (ty, n + 1))"

declare drawType.simps [code]

text \<open>The loop over the columns \<open>cs\<close> of row \<open>r\<close>, on the state \<open>(row, n)\<close>.\<close>

fun buildRow ::
  "GemType list \<Rightarrow> rng \<Rightarrow> Cell list list \<Rightarrow> nat \<Rightarrow> nat list \<Rightarrow> Cell list \<times> nat \<Rightarrow>
   (Cell list \<times> nat) option" where
  "buildRow allowedTypes rnd board r [] st = Some st"
| "buildRow allowedTypes rnd board r (c # cs) (rowCells, n) =
     (case drawType allowedTypes rnd board rowCells r c n of
        None \<Rightarrow> None
      | Some (ty, n1) \<Rightarrow>
          buildRow allowedTypes rnd board r cs
            (rowCells @
               [\<lparr>row = int r, col = int c,
                 id = ''cell-'' @ showNat r @ ''-'' @ showNat c @ ''-'' @ showRandom (rnd n1),
                 type = ty,
                 special = (if ty = Some RAINBOW then RAINBOW_special else NONE),
                 status = IDLE, visualRow = int r, visualCol = int c, isBonus = None\<rparr>],
             n1 + 1))"

text \<open>The loop over the rows \<open>rs\<close>, on the state \<open>(board, n)\<close>.\<close>

fun buildRows ::
  "GemType list \<Rightarrow> rng \<Rightarrow> nat list \<Rightarrow> Cell list list \<times> nat \<Rightarrow> (Cell list list \<times> nat) option" where
  "buildRows allowedTypes rnd [] st = Some st"
| "buildRows allowedTypes rnd (r # rs) (board, n) =
     (case buildRow allowedTypes rnd board r [0..<GRID_COLS] ([], n) of
        None \<Rightarrow> None
      | Some (rowCells, n1) \<Rightarrow> buildRows allowedTypes rnd rs (board @ [rowCells], n1))"

text \<open>\<open>createInitialBoard\<close> returns the board and the new count of draws, or never returns.\<close>

definition createInitialBoard :: "GemType list \<Rightarrow> rng \<Rightarrow> nat \<Rightarrow> (Cell list list \<times> nat) option" where
  "createInitialBoard allowedTypes rnd n = buildRows allowedTypes rnd [0..<GRID_ROWS] ([], n)"

text \<open>
  Invariants of the construction: no three consecutive cells of a row have one type, no cell
  of the row under construction repeats the two cells above it, and the rows built so far are
  full rows without three equal types in a line, across or down.
\<close>

definition rowFree :: "Cell list \<Rightarrow> bool" where
  "rowFree cells \<longleftrightarrow>
     (\<forall>j. j + 2 < length cells \<longrightarrow>
        \<not> (type (cells ! (j + 1)) = type (cells ! j) \<and> type (cells ! (j + 2)) = type (cells ! j)))"

definition colFree :: "Cell list list \<Rightarrow> Cell list \<Rightarrow> bool" where
  "colFree board cells \<longleftrightarrow>
     (\<forall>j < length cells. 2 \<le> length board \<longrightarrow>
        \<not> (type (board ! (length board - 1) ! j) = type (cells ! j) \<and>
           type (board ! (length board - 2) ! j) = type (cells ! j)))"

definition boardFree :: "Cell list list \<Rightarrow> bool" where
  "boardFree board \<longleftrightarrow>
     (\<forall>cells \<in> set board. length cells = GRID_COLS \<and> rowFree cells) \<and>
     (\<forall>i j. i + 2 < length board \<and> j < GRID_COLS \<longrightarrow>
        \<not> (type (board ! (i + 1) ! j) = type (board ! i ! j) \<and>
           type (board ! (i + 2) ! j) = type (board ! i ! j)))"

text \<open>An oracle for the case of an empty set of types.\<close>

definition zeroRnd :: rng where
  "zeroRnd n = [0]"

section \<open>Blast targets (gameLogic.ts, getSpecialBlastTargets)\<close>


section \<open>One resolution pass (App.tsx, resolveBoard)\<close>

text \<open>
  \<open>resolveBoard\<close> is an asynchronous callback that also drives the display. The model is the
  computation of one pass on the board it is given, up to the board with the cleared cells
  marked: detection, expansion by special cells, grouping, scoring and marking. The pauses,
  the particles and the sounds are left out, and so are the draws spent on them: the oracle
  enumerates the draws that reach the state of the game.
\<close>






text \<open>
  Step 3: the score of a group. The source computes in floating point; the model computes
  in the rationals, which agrees whenever the factors are exactly represented (at level 1
  all of them are).
\<close>

definition basePoints :: rat where
  "basePoints = 20"

definition levelBaseMultiplier :: "int \<Rightarrow> rat" where
  "levelBaseMultiplier currentLevel = 1 + (of_int currentLevel - 1) * (1 / 2)"

definition comboMultiplier :: "int \<Rightarrow> int \<Rightarrow> rat" where
  "comboMultiplier currentLevel currentCombo =
     1 + of_int currentCombo * (1 / 2 + (of_int currentLevel - 1) * (1 / 10))"

definition sizeMultiplier :: "nat \<Rightarrow> rat" where
  "sizeMultiplier sz = (if sz \<ge> 5 then 3 else if sz = 4 then 3 / 2 else 1)"

definition groupScore :: "int \<Rightarrow> int \<Rightarrow> Cell list \<Rightarrow> int" where
  "groupScore currentLevel currentCombo grp =
     \<lfloor>of_nat (length grp) * basePoints * sizeMultiplier (length grp) *
        comboMultiplier currentLevel currentCombo * levelBaseMultiplier currentLevel\<rfloor>"

text \<open>The cell of a group that becomes the special cell.\<close>

definition chooseCandidate :: "Cell list \<Rightarrow> Position option \<Rightarrow> Cell" where
  "chooseCandidate grp lastSwapTarget =
     (case lastSwapTarget of
        Some target \<Rightarrow>
          (case find (\<lambda>c. row c = row target \<and> col c = col target) grp of
             Some targetInGroup \<Rightarrow> targetInGroup
           | None \<Rightarrow> grp ! 0)
      | None \<Rightarrow> grp ! (length grp div 2))"

text \<open>Body of \<open>groups.forEach\<close>, on the state \<open>(newSpecialGems, turnPoints)\<close>.\<close>

definition scoreGroup ::
  "int \<Rightarrow> int \<Rightarrow> Position option \<Rightarrow> Cell list \<Rightarrow> (string \<rightharpoonup> SpecialType) \<times> int \<Rightarrow>
   (string \<rightharpoonup> SpecialType) \<times> int" where
  "scoreGroup currentLevel currentCombo lastSwapTarget grp st =
     (let special' = classifyMatchGroup grp;
          turnPoints = snd st + groupScore currentLevel currentCombo grp
      in if special' \<noteq> NONE
         then ((fst st)(id (chooseCandidate grp lastSwapTarget) \<mapsto> special'), turnPoints)
         else (fst st, turnPoints))"





section \<open>A swap (App.tsx, handleSwap)\<close>









text \<open>
  The placement as the specification words it for a turn that starts from a swap: the anchor
  when it is a member of the group, otherwise the middle element of the group.
\<close>

definition specCandidate :: "Cell list \<Rightarrow> Position \<Rightarrow> Cell" where
  "specCandidate grp target =
     (case find (\<lambda>c. row c = row target \<and> col c = col target) grp of
        Some targetInGroup \<Rightarrow> targetInGroup
      | None \<Rightarrow> grp ! (length grp div 2))"

(* DEFS-END *)

section \<open>Verification: match detection\<close>


lemma sameUpTo_stop: "\<not> (k < n \<and> f k = ty) \<Longrightarrow> sameUpTo f ty k n = {}"
  by (auto simp: sameUpTo_def)

lemma sameUpTo_step:
  assumes "k < n" "f k = ty"
  shows "sameUpTo f ty k n = insert k (sameUpTo f ty (Suc k) n)"
proof (intro set_eqI iffI)
  fix j assume "j \<in> sameUpTo f ty k n"
  then show "j \<in> insert k (sameUpTo f ty (Suc k) n)"
    by (cases "j = k") (auto simp: sameUpTo_def)
next
  fix j assume "j \<in> insert k (sameUpTo f ty (Suc k) n)"
  then consider "j = k" | "j \<in> sameUpTo f ty (Suc k) n" by blast
  then show "j \<in> sameUpTo f ty k n"
  proof cases
    case 1 then show ?thesis using assms by (auto simp: sameUpTo_def dest: le_antisym)
  next
    case 2
    then have j: "Suc k \<le> j" "j < n" "\<forall>i. Suc k \<le> i \<and> i \<le> j \<longrightarrow> f i = ty"
      by (auto simp: sameUpTo_def)
    have "f i = ty" if "k \<le> i" "i \<le> j" for i
      using that j(3) assms(2) by (cases "i = k") auto
    then show ?thesis using j by (simp add: sameUpTo_def)
  qed
qed

lemma set_setAdd [simp]: "set (setAdd x xs) = insert x (set xs)"
  by (auto simp: setAdd_def)

lemma distinct_setAdd [simp]: "distinct (setAdd x xs) = distinct xs"
  by (auto simp: setAdd_def)

lemma extendRow_eq:
  "set (extendRow board r ty k m) =
     set m \<union> (\<lambda>j. id (board ! r ! j)) ` sameUpTo (\<lambda>j. type (board ! r ! j)) ty k GRID_COLS"
proof (induction board r ty k m rule: extendRow.induct)
  case (1 board r ty k m)
  show ?case
  proof (cases "k < GRID_COLS \<and> type (board ! r ! k) = ty")
    case True
    then have "set (extendRow board r ty k m) =
        set (extendRow board r ty (Suc k) (setAdd (id (board ! r ! k)) m))"
      by (simp add: extendRow.simps[of board r ty k m])
    also have "\<dots> = insert (id (board ! r ! k)) (set m) \<union>
        (\<lambda>j. id (board ! r ! j)) ` sameUpTo (\<lambda>j. type (board ! r ! j)) ty (Suc k) GRID_COLS"
      using True "1.IH" by simp
    finally show ?thesis
      using sameUpTo_step[of k GRID_COLS "\<lambda>j. type (board ! r ! j)" ty] True by simp
  next
    case False
    have "extendRow board r ty k m = m"
      by (subst extendRow.simps) (use False in auto)
    moreover have "sameUpTo (\<lambda>j. type (board ! r ! j)) ty k GRID_COLS = {}"
      using False by (intro sameUpTo_stop)
    ultimately show ?thesis by simp
  qed
qed

lemma extendCol_eq:
  "set (extendCol board c ty k m) =
     set m \<union> (\<lambda>j. id (board ! j ! c)) ` sameUpTo (\<lambda>j. type (board ! j ! c)) ty k GRID_ROWS"
proof (induction board c ty k m rule: extendCol.induct)
  case (1 board c ty k m)
  show ?case
  proof (cases "k < GRID_ROWS \<and> type (board ! k ! c) = ty")
    case True
    then have "set (extendCol board c ty k m) =
        set (extendCol board c ty (Suc k) (setAdd (id (board ! k ! c)) m))"
      by (simp add: extendCol.simps[of board c ty k m])
    also have "\<dots> = insert (id (board ! k ! c)) (set m) \<union>
        (\<lambda>j. id (board ! j ! c)) ` sameUpTo (\<lambda>j. type (board ! j ! c)) ty (Suc k) GRID_ROWS"
      using True "1.IH" by simp
    finally show ?thesis
      using sameUpTo_step[of k GRID_ROWS "\<lambda>j. type (board ! j ! c)" ty] True by simp
  next
    case False
    have "extendCol board c ty k m = m"
      by (subst extendCol.simps) (use False in auto)
    moreover have "sameUpTo (\<lambda>j. type (board ! j ! c)) ty k GRID_ROWS = {}"
      using False by (intro sameUpTo_stop)
    ultimately show ?thesis by simp
  qed
qed

lemma sameUpTo_three:
  assumes "c + 2 < n" "f (c + 1) = f c" "f (c + 2) = f c"
  shows "sameUpTo f (f c) c n = insert c (insert (c + 1) (insert (c + 2) (sameUpTo f (f c) (c + 3) n)))"
proof -
  have 1: "sameUpTo f (f c) c n = insert c (sameUpTo f (f c) (Suc c) n)"
    using assms by (intro sameUpTo_step) auto
  have 2: "sameUpTo f (f c) (Suc c) n = insert (Suc c) (sameUpTo f (f c) (Suc (Suc c)) n)"
    using assms by (intro sameUpTo_step) auto
  have 3: "sameUpTo f (f c) (Suc (Suc c)) n = insert (Suc (Suc c)) (sameUpTo f (f c) (Suc (Suc (Suc c))) n)"
    using assms by (intro sameUpTo_step) auto
  show ?thesis unfolding 1 2 3 by (simp add: numeral_3_eq_3 numeral_2_eq_2)
qed

lemma matchRowAt_eq:
  assumes "c + 2 < GRID_COLS"
  shows "set (matchRowAt board r c m) = set m \<union> (\<lambda>j. id (board ! r ! j)) ` hits (\<lambda>j. type (board ! r ! j)) GRID_COLS c"
  using assms sameUpTo_three[of c GRID_COLS "\<lambda>j. type (board ! r ! j)"]
  by (auto simp: matchRowAt_def hits_def Let_def extendRow_eq)

lemma matchColAt_eq:
  assumes "r + 2 < GRID_ROWS"
  shows "set (matchColAt board r c m) = set m \<union> (\<lambda>j. id (board ! j ! c)) ` hits (\<lambda>j. type (board ! j ! c)) GRID_ROWS r"
  using assms sameUpTo_three[of r GRID_ROWS "\<lambda>j. type (board ! j ! c)"]
  by (auto simp: matchColAt_def hits_def Let_def extendCol_eq)

lemma fold_union:
  assumes "\<And>x m. x \<in> set xs \<Longrightarrow> set (f x m) = set m \<union> g x"
  shows "set (fold f xs m) = set m \<union> (\<Union>x \<in> set xs. g x)"
  using assms by (induction xs arbitrary: m) auto

lemma hits_iff_run:
  assumes "\<forall>j < n. f j \<noteq> None"
  shows "j \<in> (\<Union>c \<in> {0..<n - 2}. hits f n c) \<longleftrightarrow>
         (\<exists>s len. 3 \<le> len \<and> s + len \<le> n \<and> s \<le> j \<and> j < s + len \<and> (\<forall>i \<in> {s..<s + len}. f i = f s))"
  (is "?L \<longleftrightarrow> ?R")
proof
  assume ?L
  then obtain c where c: "c < n - 2" "j \<in> hits f n c" by auto
  have win: "f c \<noteq> None \<and> f (c + 1) = f c \<and> f (c + 2) = f c"
  proof (rule ccontr)
    assume "\<not> ?thesis"
    then have "hits f n c = {}" unfolding hits_def by (rule if_not_P)
    with c show False by simp
  qed
  then have w: "f (c + 1) = f c" "f (c + 2) = f c" by blast+
  have j: "j \<in> sameUpTo f (f c) c n"
    using c(2) if_P[OF win, of "sameUpTo f (f c) c n" "{}"] unfolding hits_def by simp
  then have J: "c \<le> j \<and> j < n \<and> (\<forall>i. c \<le> i \<and> i \<le> j \<longrightarrow> f i = f c)"
    unfolding sameUpTo_def mem_Collect_eq .
  have j': "c \<le> j" "j < n" using J by blast+
  have j3: "f i = f c" if "c \<le> i" "i \<le> j" for i using J that by blast
  let ?len = "max 3 (j - c + 1)"
  have "f i = f c" if "i \<in> {c..<c + ?len}" for i
  proof (cases "i \<le> j")
    case True
    moreover have "c \<le> i" using that by simp
    ultimately show ?thesis by (intro j3)
  next
    case False
    then have "i = c \<or> i = c + 1 \<or> i = c + 2" using that j' by auto
    then show ?thesis using w by blast
  qed
  then have "\<forall>i \<in> {c..<c + ?len}. f i = f c" by blast
  moreover have "c + ?len \<le> n" using c j' by auto
  moreover have "j < c + ?len" using j' by auto
  moreover have "3 \<le> ?len" by simp
  ultimately show ?R using j'(1) by blast
next
  assume ?R
  then obtain s len where r: "3 \<le> len" "s + len \<le> n" "s \<le> j" "j < s + len"
    and same: "\<forall>i \<in> {s..<s + len}. f i = f s" by blast
  have "s < n" using r by simp
  then have "f s \<noteq> None" using assms by blast
  moreover have "s + 1 \<in> {s..<s + len}" "s + 2 \<in> {s..<s + len}" using r by auto
  then have "f (s + 1) = f s" "f (s + 2) = f s" using same by blast+
  ultimately have "hits f n s = sameUpTo f (f s) s n" unfolding hits_def by (intro if_P) blast
  moreover have "j \<in> sameUpTo f (f s) s n"
  proof -
    have "f i = f s" if "s \<le> i \<and> i \<le> j" for i
    proof -
      have "i \<in> {s..<s + len}" using that r by auto
      then show ?thesis using same by blast
    qed
    moreover have "j < n" using r by simp
    ultimately show ?thesis unfolding sameUpTo_def mem_Collect_eq using r(3) by blast
  qed
  ultimately have "j \<in> hits f n s" by simp
  moreover have "s \<in> {0..<n - 2}" using r by auto
  ultimately show ?L by blast
qed

lemma typed_cell:
  assumes "gridShape board" "typedBoard board" "r < GRID_ROWS" "c < GRID_COLS"
  shows "type (board ! r ! c) \<noteq> None"
proof -
  have "board ! r \<in> set board" using assms by (simp add: gridShape_def)
  moreover from this have "board ! r ! c \<in> set (board ! r)" using assms by (simp add: gridShape_def)
  ultimately have "board ! r ! c \<in> set (concat board)" by auto
  then show ?thesis using assms(2) unfolding typedBoard_def by blast
qed

lemma findMatches_hits:
  "set (findMatches board) =
     (\<Union>r \<in> {0..<GRID_ROWS}. \<Union>c \<in> {0..<GRID_COLS - 2}.
        (\<lambda>j. id (board ! r ! j)) ` hits (\<lambda>j. type (board ! r ! j)) GRID_COLS c) \<union>
     (\<Union>c \<in> {0..<GRID_COLS}. \<Union>r \<in> {0..<GRID_ROWS - 2}.
        (\<lambda>j. id (board ! j ! c)) ` hits (\<lambda>j. type (board ! j ! c)) GRID_ROWS r)"
proof -
  have rowScan: "set (fold (\<lambda>c. matchRowAt board r c) [0..<GRID_COLS - 2] m) =
      set m \<union> (\<Union>c \<in> set [0..<GRID_COLS - 2]. (\<lambda>j. id (board ! r ! j)) ` hits (\<lambda>j. type (board ! r ! j)) GRID_COLS c)" for r m
    by (rule fold_union) (simp add: matchRowAt_eq)
  have colScan: "set (fold (\<lambda>r. matchColAt board r c) [0..<GRID_ROWS - 2] m) =
      set m \<union> (\<Union>r \<in> set [0..<GRID_ROWS - 2]. (\<lambda>j. id (board ! j ! c)) ` hits (\<lambda>j. type (board ! j ! c)) GRID_ROWS r)" for c m
    by (rule fold_union) (simp add: matchColAt_eq)
  have h: "set (fold (\<lambda>r. fold (\<lambda>c. matchRowAt board r c) [0..<GRID_COLS - 2]) [0..<GRID_ROWS] m) =
      set m \<union> (\<Union>r \<in> set [0..<GRID_ROWS]. \<Union>c \<in> set [0..<GRID_COLS - 2]. (\<lambda>j. id (board ! r ! j)) ` hits (\<lambda>j. type (board ! r ! j)) GRID_COLS c)" for m
    by (rule fold_union) (rule rowScan)
  have v: "set (fold (\<lambda>c. fold (\<lambda>r. matchColAt board r c) [0..<GRID_ROWS - 2]) [0..<GRID_COLS] m) =
      set m \<union> (\<Union>c \<in> set [0..<GRID_COLS]. \<Union>r \<in> set [0..<GRID_ROWS - 2]. (\<lambda>j. id (board ! j ! c)) ` hits (\<lambda>j. type (board ! j ! c)) GRID_ROWS r)" for m
    by (rule fold_union) (rule colScan)
  show ?thesis unfolding findMatches_def Let_def h v by simp
qed

lemma bounded_run_iff:
  "(\<exists>s \<in> {0..<n::nat}. \<exists>len \<in> {0..n}. s \<le> c \<and> c < s + len \<and>
       (3 \<le> len \<and> s + len \<le> n \<and> (\<forall>j \<in> {s..<s + len}. f j = f s)))
   \<longleftrightarrow> (\<exists>s len. 3 \<le> len \<and> s + len \<le> n \<and> s \<le> c \<and> c < s + len \<and>
            (\<forall>i \<in> {s..<s + len}. f i = f s))"
  (is "?L \<longleftrightarrow> ?R")
proof
  assume ?L then show ?R by blast
next
  assume ?R
  then obtain s len where r: "3 \<le> len" "s + len \<le> n" "s \<le> c" "c < s + len"
    "\<forall>i \<in> {s..<s + len}. f i = f s" by blast
  have "s \<in> {0..<n}" "len \<in> {0..n}" using r by auto
  then show ?L using r by blast
qed

lemma distinct_extendRow: "distinct m \<Longrightarrow> distinct (extendRow board r ty k m)"
proof (induction board r ty k m rule: extendRow.induct)
  case (1 board r ty k m)
  show ?case
  proof (cases "k < GRID_COLS \<and> type (board ! r ! k) = ty")
    case True
    then show ?thesis using 1 by (subst extendRow.simps) simp
  next
    case False
    then show ?thesis using "1.prems" by (subst extendRow.simps) auto
  qed
qed

lemma distinct_extendCol: "distinct m \<Longrightarrow> distinct (extendCol board c ty k m)"
proof (induction board c ty k m rule: extendCol.induct)
  case (1 board c ty k m)
  show ?case
  proof (cases "k < GRID_ROWS \<and> type (board ! k ! c) = ty")
    case True
    then show ?thesis using 1 by (subst extendCol.simps) simp
  next
    case False
    then show ?thesis using "1.prems" by (subst extendCol.simps) auto
  qed
qed

lemma fold_distinct:
  assumes "\<And>x m. distinct m \<Longrightarrow> distinct (f x m)" and "distinct m"
  shows "distinct (fold f xs m)"
  using assms(2) by (induction xs arbitrary: m) (simp_all add: assms(1))

lemma distinct_findMatches: "distinct (findMatches board)"
proof -
  have r: "distinct (matchRowAt board r c m)" if "distinct m" for r c m
    using that by (simp add: matchRowAt_def Let_def distinct_extendRow)
  have c: "distinct (matchColAt board r c m)" if "distinct m" for r c m
    using that by (simp add: matchColAt_def Let_def distinct_extendCol)
  have rows: "distinct (fold (\<lambda>c. matchRowAt board r c) cs m)" if "distinct m" for r cs m
    using r that by (rule fold_distinct)
  have cols: "distinct (fold (\<lambda>r. matchColAt board r c) rs m)" if "distinct m" for c rs m
    using c that by (rule fold_distinct)
  have "distinct ([]::string list)" by simp
  with rows have "distinct (fold (\<lambda>r. fold (\<lambda>c. matchRowAt board r c) [0..<GRID_COLS - 2])
      [0..<GRID_ROWS] [])"
    by (rule fold_distinct)
  with cols show ?thesis unfolding findMatches_def Let_def by (rule fold_distinct)
qed

lemma inRun_iff:
  assumes "gridShape board" "typedBoard board" "r < GRID_ROWS" "c < GRID_COLS"
  shows "inRun board r c \<longleftrightarrow>
     c \<in> (\<Union>s \<in> {0..<GRID_COLS - 2}. hits (\<lambda>j. type (board ! r ! j)) GRID_COLS s) \<or>
     r \<in> (\<Union>s \<in> {0..<GRID_ROWS - 2}. hits (\<lambda>j. type (board ! j ! c)) GRID_ROWS s)"
proof -
  have tr: "\<forall>j < GRID_COLS. type (board ! r ! j) \<noteq> None"
    using assms typed_cell by blast
  have tc: "\<forall>j < GRID_ROWS. type (board ! j ! c) \<noteq> None"
    using assms typed_cell by blast
  show ?thesis
    unfolding inRun_def rowRun_def colRun_def hits_iff_run[OF tr] hits_iff_run[OF tc]
      bounded_run_iff[of GRID_COLS c "\<lambda>j. type (board ! r ! j)"]
      bounded_run_iff[of GRID_ROWS r "\<lambda>j. type (board ! j ! c)"] ..
qed

lemma findMatches_runs_set:
  assumes "gridShape board" "typedBoard board"
  shows "set (findMatches board) = {id (board ! r ! c) | r c. r < GRID_ROWS \<and> c < GRID_COLS \<and> inRun board r c}"
proof (intro set_eqI iffI)
  fix x assume "x \<in> set (findMatches board)"
  then consider
    (h) r c j where "r < GRID_ROWS" "c < GRID_COLS - 2" "j \<in> hits (\<lambda>j. type (board ! r ! j)) GRID_COLS c" "x = id (board ! r ! j)"
  | (v) r c j where "c < GRID_COLS" "r < GRID_ROWS - 2" "j \<in> hits (\<lambda>j. type (board ! j ! c)) GRID_ROWS r" "x = id (board ! j ! c)"
    unfolding findMatches_hits by auto
  then show "x \<in> {id (board ! r ! c) | r c. r < GRID_ROWS \<and> c < GRID_COLS \<and> inRun board r c}"
  proof cases
    case h
    then have "j < GRID_COLS" by (auto simp: hits_def sameUpTo_def split: if_splits)
    moreover from this have "inRun board r j"
      using h inRun_iff[OF assms, of r j] by auto
    ultimately show ?thesis using h by blast
  next
    case v
    then have "j < GRID_ROWS" by (auto simp: hits_def sameUpTo_def split: if_splits)
    moreover from this have "inRun board j c"
      using v inRun_iff[OF assms, of j c] by auto
    ultimately show ?thesis using v by blast
  qed
next
  fix x assume "x \<in> {id (board ! r ! c) | r c. r < GRID_ROWS \<and> c < GRID_COLS \<and> inRun board r c}"
  then obtain r c where rc: "x = id (board ! r ! c)" "r < GRID_ROWS" "c < GRID_COLS" "inRun board r c"
    by blast
  from rc(4) inRun_iff[OF assms rc(2,3)] consider
    (h) s where "s < GRID_COLS - 2" "c \<in> hits (\<lambda>j. type (board ! r ! j)) GRID_COLS s"
  | (v) s where "s < GRID_ROWS - 2" "r \<in> hits (\<lambda>j. type (board ! j ! c)) GRID_ROWS s"
    by auto
  then show "x \<in> set (findMatches board)"
  proof cases
    case h
    have "x \<in> (\<lambda>j. id (board ! r ! j)) ` hits (\<lambda>j. type (board ! r ! j)) GRID_COLS s"
      using h rc by blast
    moreover have "r \<in> {0..<GRID_ROWS}" "s \<in> {0..<GRID_COLS - 2}" using h rc by auto
    ultimately show ?thesis unfolding findMatches_hits by blast
  next
    case v
    have "x \<in> (\<lambda>j. id (board ! j ! c)) ` hits (\<lambda>j. type (board ! j ! c)) GRID_ROWS s"
      using v rc by blast
    moreover have "c \<in> {0..<GRID_COLS}" "s \<in> {0..<GRID_ROWS - 2}" using v rc by auto
    ultimately show ?thesis unfolding findMatches_hits by blast
  qed
qed


lemma concat_nth_grid:
  assumes "\<forall>x \<in> set xs. length x = n" "r < length xs" "c < n"
  shows "concat xs ! (r * n + c) = xs ! r ! c \<and> r * n + c < length (concat xs)"
  using assms
proof (induction xs arbitrary: r)
  case Nil
  then show ?case by simp
next
  case (Cons x xs)
  show ?case
  proof (cases r)
    case 0
    then show ?thesis using Cons.prems by (simp add: nth_append)
  next
    case (Suc r')
    have "concat xs ! (r' * n + c) = xs ! r' ! c \<and> r' * n + c < length (concat xs)"
      using Cons.prems Suc by (intro Cons.IH) auto
    moreover have "length x = n" using Cons.prems by simp
    ultimately show ?thesis using Suc by (simp add: nth_append)
  qed
qed

lemma distinctIds_inj:
  assumes "gridShape board" "distinctIds board"
    "r < GRID_ROWS" "c < GRID_COLS" "r' < GRID_ROWS" "c' < GRID_COLS"
    "id (board ! r ! c) = id (board ! r' ! c')"
  shows "r = r' \<and> c = c'"
proof -
  let ?xs = "map id (concat board)"
  have sh: "\<forall>x \<in> set board. length x = GRID_COLS" "length board = GRID_ROWS"
    using assms(1) by (simp_all add: gridShape_def)
  have 1: "concat board ! (r * GRID_COLS + c) = board ! r ! c \<and> r * GRID_COLS + c < length (concat board)"
    using sh assms by (intro concat_nth_grid) auto
  have 2: "concat board ! (r' * GRID_COLS + c') = board ! r' ! c' \<and> r' * GRID_COLS + c' < length (concat board)"
    using sh assms by (intro concat_nth_grid) auto
  have "?xs ! (r * GRID_COLS + c) = ?xs ! (r' * GRID_COLS + c')"
    using 1 2 assms(7) by simp
  moreover have "distinct ?xs" using assms(2) by (simp add: distinctIds_def)
  moreover have "r * GRID_COLS + c < length ?xs" "r' * GRID_COLS + c' < length ?xs"
    using 1 2 by simp_all
  ultimately have eq: "r * GRID_COLS + c = r' * GRID_COLS + c'"
    using nth_eq_iff_index_eq[of ?xs "r * GRID_COLS + c" "r' * GRID_COLS + c'"] by blast
  have "(r * GRID_COLS + c) div GRID_COLS = r" "(r' * GRID_COLS + c') div GRID_COLS = r'"
    "(r * GRID_COLS + c) mod GRID_COLS = c" "(r' * GRID_COLS + c') mod GRID_COLS = c'"
    using assms by simp_all
  then show ?thesis using eq by metis
qed

lemma upt8: "[0..<8] = [0, 1, 2, 3, 4, 5, 6, 7::nat]"
  by (simp add: upt_rec)


lemmas exampleBoard_lit = exampleBoard_def[unfolded mkBoard_def mkCell_def, simplified]

lemma exampleBoard_shape: "gridShape exampleBoard"
  by (simp add: gridShape_def GRID_ROWS_def GRID_COLS_def exampleBoard_lit)

lemma exampleBoard_typed: "typedBoard exampleBoard"
  by (simp add: typedBoard_def exampleBoard_lit)

(* SLOW-BEGIN *)

lemma exampleBoard_distinct: "distinctIds exampleBoard"
  by (simp add: distinctIds_def exampleBoard_lit)

lemma exampleBoard_matches:
  "findMatches exampleBoard = [''20'', ''21'', ''22'', ''23'']"
  by code_simp
(* SLOW-END *)

text \<open>
  C1. On a board of the grid's shape whose cells all carry a token type, \<open>findMatches\<close>
  returns, as a list without repetition, exactly the identifiers of the cells lying in a horizontal or vertical run of three
  or more cells of one token type; when the identifiers of the board are pairwise distinct, a
  cell's identifier is returned if and only if that cell lies in such a run.
\<close>

theorem findMatches_exact:
  assumes "gridShape board" and "typedBoard board"
  shows "distinct (findMatches board) \<and>
         set (findMatches board) =
           {id (board ! r ! c) | r c. r < GRID_ROWS \<and> c < GRID_COLS \<and> inRun board r c} \<and>
         (distinctIds board \<longrightarrow>
            (\<forall>r < GRID_ROWS. \<forall>c < GRID_COLS.
               id (board ! r ! c) \<in> set (findMatches board) \<longleftrightarrow> inRun board r c))"
proof (intro conjI impI allI)
  show "distinct (findMatches board)" by (rule distinct_findMatches)
next
  show "set (findMatches board) =
           {id (board ! r ! c) | r c. r < GRID_ROWS \<and> c < GRID_COLS \<and> inRun board r c}"
    using assms by (rule findMatches_runs_set)
next
  fix r c
  assume d: "distinctIds board" and rc: "r < GRID_ROWS" "c < GRID_COLS"
  show "id (board ! r ! c) \<in> set (findMatches board) \<longleftrightarrow> inRun board r c"
  proof
    assume "id (board ! r ! c) \<in> set (findMatches board)"
    then obtain r' c' where x: "id (board ! r ! c) = id (board ! r' ! c')"
      "r' < GRID_ROWS" "c' < GRID_COLS" "inRun board r' c'"
      unfolding findMatches_runs_set[OF assms] by blast
    then have "r = r' \<and> c = c'" using distinctIds_inj[OF assms(1) d rc x(2,3) x(1)] by simp
    then show "inRun board r c" using x(4) by simp
  next
    assume "inRun board r c"
    then show "id (board ! r ! c) \<in> set (findMatches board)"
      unfolding findMatches_runs_set[OF assms] using rc by blast
  qed
qed


(* SLOW-BEGIN *)
theorem findMatches_exact_witness:
  "gridShape exampleBoard \<and> typedBoard exampleBoard \<and> distinctIds exampleBoard \<and>
   findMatches exampleBoard = [''20'', ''21'', ''22'', ''23''] \<and>
   inRun exampleBoard 2 3 \<and> \<not> inRun exampleBoard 2 4"
proof -
  have b: "(2::nat) < GRID_ROWS" "(3::nat) < GRID_COLS" "(4::nat) < GRID_COLS"
    by (simp_all add: GRID_ROWS_def GRID_COLS_def)
  from findMatches_exact[OF exampleBoard_shape exampleBoard_typed] exampleBoard_distinct
  have iff: "\<forall>r < GRID_ROWS. \<forall>c < GRID_COLS.
      id (exampleBoard ! r ! c) \<in> set (findMatches exampleBoard) \<longleftrightarrow> inRun exampleBoard r c"
    by blast
  have ids: "id (exampleBoard ! 2 ! 3) = ''23''" "id (exampleBoard ! 2 ! 4) = ''24''"
    by (simp_all add: exampleBoard_lit)
  have "id (exampleBoard ! 2 ! 3) \<in> set (findMatches exampleBoard)"
    unfolding ids exampleBoard_matches by simp
  then have "inRun exampleBoard 2 3" using iff b by blast
  moreover have "id (exampleBoard ! 2 ! 4) \<notin> set (findMatches exampleBoard)"
    unfolding ids exampleBoard_matches by simp
  then have "\<not> inRun exampleBoard 2 4" using iff b by blast
  ultimately show ?thesis
    using exampleBoard_shape exampleBoard_typed exampleBoard_distinct exampleBoard_matches by blast
qed
(* SLOW-END *)

section \<open>Verification: group classification\<close>






section \<open>Verification: gravity and refill\<close>

lemma gridShape_setCell:
  assumes "gridShape b"
  shows "gridShape (setCell b r c x)"
proof (cases "r < length b")
  case False
  then show ?thesis using assms by (simp add: setCell_def list_update_beyond)
next
  case True
  then have "length ((b ! r)[c := x]) = GRID_COLS"
    using assms by (simp add: gridShape_def)
  moreover have "set (b[r := (b ! r)[c := x]]) \<subseteq> insert ((b ! r)[c := x]) (set b)"
    by (rule set_update_subset_insert)
  ultimately show ?thesis
    using assms unfolding gridShape_def setCell_def by auto
qed

lemma nth_setCell:
  assumes "gridShape b" "r < GRID_ROWS" "c < GRID_COLS"
  shows "setCell b r c x ! r' ! c' = (if r' = r \<and> c' = c then x else b ! r' ! c')"
proof -
  have len: "r < length b" "c < length (b ! r)"
    using assms by (auto simp: gridShape_def)
  show ?thesis
  proof (cases "r' = r")
    case True
    then show ?thesis using len by (simp add: setCell_def nth_list_update)
  next
    case False
    then show ?thesis by (simp add: setCell_def)
  qed
qed

lemma token_simps [simp]:
  "token (x\<lparr>status := s\<rparr>) = token x"
  "token (x\<lparr>row := r, status := s, visualRow := v\<rparr>) = token x"
  by (simp_all add: token_def)

lemma survivors_Cons:
  "survivors (x # xs) = (if vacant x then survivors xs else x # survivors xs)"
  by (simp add: survivors_def)

lemma dropStep_vacant:
  assumes inv: "scanInv b c (Suc k) nb e" and c: "c < GRID_COLS"
    and v: "vacant (nb ! k ! c)"
  shows "scanInv b c k (setCell nb k c ((nb ! k ! c)\<lparr>status := EMPTY\<rparr>)) (e + 1)"
proof -
  let ?nb = "setCell nb k c ((nb ! k ! c)\<lparr>status := EMPTY\<rparr>)"
  from inv have gs: "gridShape nb" and le: "Suc k + e \<le> GRID_ROWS"
    and oth: "\<forall>r c'. c' \<noteq> c \<longrightarrow> nb ! r ! c' = b ! r ! c'"
    and above: "\<forall>r < Suc k. nb ! r ! c = b ! r ! c"
    and emp: "\<forall>r. Suc k \<le> r \<and> r < Suc k + e \<longrightarrow> status (nb ! r ! c) = EMPTY"
    and occ: "\<forall>r. Suc k + e \<le> r \<and> r < GRID_ROWS \<longrightarrow> \<not> vacant (nb ! r ! c)"
    and toks: "map token (map (\<lambda>r. nb ! r ! c) [Suc k + e..<GRID_ROWS]) =
       map token (survivors (map (\<lambda>r. b ! r ! c) [Suc k..<GRID_ROWS]))"
    unfolding scanInv_def by blast+
  have k: "k < GRID_ROWS" using le by simp
  note get = nth_setCell[OF gs k c]
  have bk: "nb ! k ! c = b ! k ! c" using above by simp
  have 1: "gridShape ?nb" using gs by (rule gridShape_setCell)
  have 2: "k + (e + 1) \<le> GRID_ROWS" using le by simp
  have 3: "\<forall>r c'. c' \<noteq> c \<longrightarrow> ?nb ! r ! c' = b ! r ! c'" using oth by (simp add: get)
  have 4: "\<forall>r < k. ?nb ! r ! c = b ! r ! c" using above by (simp add: get)
  have 5: "\<forall>r. k \<le> r \<and> r < k + (e + 1) \<longrightarrow> status (?nb ! r ! c) = EMPTY"
  proof (intro allI impI)
    fix r assume r: "k \<le> r \<and> r < k + (e + 1)"
    show "status (?nb ! r ! c) = EMPTY"
    proof (cases "r = k")
      case True then show ?thesis by (simp add: get)
    next
      case False
      then have "Suc k \<le> r \<and> r < Suc k + e" using r by simp
      then show ?thesis using emp False by (simp add: get)
    qed
  qed
  have 6: "\<forall>r. k + (e + 1) \<le> r \<and> r < GRID_ROWS \<longrightarrow> \<not> vacant (?nb ! r ! c)"
    using occ by (simp add: get)
  have idx: "k + (e + 1) = Suc k + e" by simp
  have m: "map (\<lambda>r. ?nb ! r ! c) [Suc k + e..<GRID_ROWS] = map (\<lambda>r. nb ! r ! c) [Suc k + e..<GRID_ROWS]"
    by (rule map_cong[OF refl]) (simp add: get)
  have s: "survivors (map (\<lambda>r. b ! r ! c) [k..<GRID_ROWS]) =
      survivors (map (\<lambda>r. b ! r ! c) [Suc k..<GRID_ROWS])"
    using k v bk by (simp add: upt_conv_Cons survivors_Cons)
  have 7: "map token (map (\<lambda>r. ?nb ! r ! c) [k + (e + 1)..<GRID_ROWS]) =
       map token (survivors (map (\<lambda>r. b ! r ! c) [k..<GRID_ROWS]))"
    unfolding idx m s by (rule toks)
  show ?thesis unfolding scanInv_def using 1 2 3 4 5 6 7 by blast
qed


lemma dropStep_keep:
  assumes inv: "scanInv b c (Suc k) nb 0" and v: "\<not> vacant (nb ! k ! c)"
  shows "scanInv b c k nb 0"
proof -
  from inv have gs: "gridShape nb" and le: "Suc k \<le> GRID_ROWS"
    and oth: "\<forall>r c'. c' \<noteq> c \<longrightarrow> nb ! r ! c' = b ! r ! c'"
    and above: "\<forall>r < Suc k. nb ! r ! c = b ! r ! c"
    and occ: "\<forall>r. Suc k \<le> r \<and> r < GRID_ROWS \<longrightarrow> \<not> vacant (nb ! r ! c)"
    and toks: "map token (map (\<lambda>r. nb ! r ! c) [Suc k..<GRID_ROWS]) =
       map token (survivors (map (\<lambda>r. b ! r ! c) [Suc k..<GRID_ROWS]))"
    unfolding scanInv_def by simp_all
  have k: "k < GRID_ROWS" using le by simp
  have bk: "nb ! k ! c = b ! k ! c" using above by simp
  have 6: "\<forall>r. k + 0 \<le> r \<and> r < GRID_ROWS \<longrightarrow> \<not> vacant (nb ! r ! c)"
  proof (intro allI impI)
    fix r assume r: "k + 0 \<le> r \<and> r < GRID_ROWS"
    show "\<not> vacant (nb ! r ! c)"
    proof (cases "r = k")
      case True then show ?thesis using v by simp
    next
      case False
      then have "Suc k \<le> r \<and> r < GRID_ROWS" using r by simp
      then show ?thesis using occ by blast
    qed
  qed
  have s: "survivors (map (\<lambda>r. b ! r ! c) [k..<GRID_ROWS]) =
      b ! k ! c # survivors (map (\<lambda>r. b ! r ! c) [Suc k..<GRID_ROWS])"
    using k v bk by (simp add: upt_conv_Cons survivors_Cons)
  have 7: "map token (map (\<lambda>r. nb ! r ! c) [k + 0..<GRID_ROWS]) =
       map token (survivors (map (\<lambda>r. b ! r ! c) [k..<GRID_ROWS]))"
    unfolding s using toks k bk by (simp add: upt_conv_Cons)
  have 4: "\<forall>r < k. nb ! r ! c = b ! r ! c" using above by simp
  have 5: "\<forall>r. k \<le> r \<and> r < k + 0 \<longrightarrow> status (nb ! r ! c) = EMPTY" by auto
  have 2: "k + 0 \<le> GRID_ROWS" using k by simp
  show ?thesis unfolding scanInv_def using gs 2 oth 4 5 6 7 by blast
qed

lemma dropStep_move:
  assumes inv: "scanInv b c (Suc k) nb e" and c: "c < GRID_COLS"
    and v: "\<not> vacant (nb ! k ! c)" and e: "0 < e" and t: "status t = EMPTY"
  shows "scanInv b c k
     (setCell (setCell nb (k + e) c ((nb ! k ! c)\<lparr>row := rw, status := DROPPING, visualRow := vr\<rparr>)) k c t) e"
proof -
  let ?x = "(nb ! k ! c)\<lparr>row := rw, status := DROPPING, visualRow := vr\<rparr>"
  let ?m = "setCell nb (k + e) c ?x"
  let ?nb = "setCell ?m k c t"
  from inv have gs: "gridShape nb" and le: "Suc k + e \<le> GRID_ROWS"
    and oth: "\<forall>r c'. c' \<noteq> c \<longrightarrow> nb ! r ! c' = b ! r ! c'"
    and above: "\<forall>r < Suc k. nb ! r ! c = b ! r ! c"
    and emp: "\<forall>r. Suc k \<le> r \<and> r < Suc k + e \<longrightarrow> status (nb ! r ! c) = EMPTY"
    and occ: "\<forall>r. Suc k + e \<le> r \<and> r < GRID_ROWS \<longrightarrow> \<not> vacant (nb ! r ! c)"
    and toks: "map token (map (\<lambda>r. nb ! r ! c) [Suc k + e..<GRID_ROWS]) =
       map token (survivors (map (\<lambda>r. b ! r ! c) [Suc k..<GRID_ROWS]))"
    unfolding scanInv_def by blast+
  have k: "k < GRID_ROWS" and ke: "k + e < GRID_ROWS" using le by simp_all
  have gm: "gridShape (setCell nb (k + e) c y)" for y using gs by (rule gridShape_setCell)
  note get = nth_setCell[OF gm k c] nth_setCell[OF gs ke c]
  have bk: "nb ! k ! c = b ! k ! c" using above by simp
  have 1: "gridShape ?nb" using gm by (rule gridShape_setCell)
  have 3: "\<forall>r c'. c' \<noteq> c \<longrightarrow> ?nb ! r ! c' = b ! r ! c'" using oth by (simp add: get)
  have 4: "\<forall>r < k. ?nb ! r ! c = b ! r ! c" using above by (simp add: get)
  have 5: "\<forall>r. k \<le> r \<and> r < k + e \<longrightarrow> status (?nb ! r ! c) = EMPTY"
  proof (intro allI impI)
    fix r assume r: "k \<le> r \<and> r < k + e"
    show "status (?nb ! r ! c) = EMPTY"
    proof (cases "r = k")
      case True then show ?thesis using t by (simp add: get)
    next
      case False
      then have "Suc k \<le> r \<and> r < Suc k + e" "r \<noteq> k + e" using r by simp_all
      then show ?thesis using emp False by (simp add: get)
    qed
  qed
  have 6: "\<forall>r. k + e \<le> r \<and> r < GRID_ROWS \<longrightarrow> \<not> vacant (?nb ! r ! c)"
  proof (intro allI impI)
    fix r assume r: "k + e \<le> r \<and> r < GRID_ROWS"
    show "\<not> vacant (?nb ! r ! c)"
    proof (cases "r = k + e")
      case True then show ?thesis using e by (simp add: get vacant_def)
    next
      case False
      then have "Suc k + e \<le> r \<and> r < GRID_ROWS" "r \<noteq> k" using r e by simp_all
      then show ?thesis using occ False by (simp add: get)
    qed
  qed
  have m: "map (\<lambda>r. ?nb ! r ! c) [Suc k + e..<GRID_ROWS] = map (\<lambda>r. nb ! r ! c) [Suc k + e..<GRID_ROWS]"
    by (rule map_cong[OF refl]) (simp add: get)
  have s: "survivors (map (\<lambda>r. b ! r ! c) [k..<GRID_ROWS]) =
      b ! k ! c # survivors (map (\<lambda>r. b ! r ! c) [Suc k..<GRID_ROWS])"
    using k v bk by (simp add: upt_conv_Cons survivors_Cons)
  have u: "[k + e..<GRID_ROWS] = (k + e) # [Suc k + e..<GRID_ROWS]"
    using ke by (simp add: upt_conv_Cons)
  have h: "?nb ! (k + e) ! c = ?x" using e by (simp add: get)
  have 7: "map token (map (\<lambda>r. ?nb ! r ! c) [k + e..<GRID_ROWS]) =
       map token (survivors (map (\<lambda>r. b ! r ! c) [k..<GRID_ROWS]))"
    unfolding s u list.map h m using toks bk by simp
  have 2: "k + e \<le> GRID_ROWS" using le by simp
  show ?thesis unfolding scanInv_def using 1 2 3 4 5 6 7 by blast
qed

lemma dropColumn_inv:
  assumes "scanInv b c k nb e" "c < GRID_COLS"
    "dropColumn c k rnd (nb, e, m, n) = (nb', e', m', n')"
  shows "scanInv b c 0 nb' e' \<and> e \<le> e' \<and> (m \<longrightarrow> m') \<and> (m' \<longrightarrow> m \<or> 0 < e')"
  using assms
proof (induction k arbitrary: nb e m n)
  case 0
  then show ?case by auto
next
  case (Suc k)
  show ?case
  proof (cases "vacant (nb ! k ! c)")
    case True
    have inv: "scanInv b c k (setCell nb k c ((nb ! k ! c)\<lparr>status := EMPTY\<rparr>)) (e + 1)"
      using Suc.prems(1,2) True by (rule dropStep_vacant)
    have "dropColumn c k rnd (setCell nb k c ((nb ! k ! c)\<lparr>status := EMPTY\<rparr>), e + 1, m, n) = (nb', e', m', n')"
      using Suc.prems(3) True by (simp add: vacant_def)
    from Suc.IH[OF inv Suc.prems(2) this] show ?thesis by auto
  next
    case False
    show ?thesis
    proof (cases "0 < e")
      case True
      let ?t = "\<lparr>row = int k, col = int c,
                 id = ''temp-'' @ showNat k @ ''-'' @ showNat c @ ''-'' @ showRandom (rnd n),
                 type = Some RED, special = NONE, status = EMPTY,
                 visualRow = int k, visualCol = int c, isBonus = None\<rparr>"
      let ?nb = "setCell (setCell nb (k + e) c
          ((nb ! k ! c)\<lparr>row := int (k + e), status := DROPPING, visualRow := int k\<rparr>)) k c ?t"
      have inv: "scanInv b c k ?nb e"
        using Suc.prems(1,2) False True by (rule dropStep_move) simp
      have "dropColumn c k rnd (?nb, e, True, n + 1) = (nb', e', m', n')"
        using Suc.prems(3) True False by (simp add: vacant_def Let_def)
      from Suc.IH[OF inv Suc.prems(2) this] show ?thesis using True by auto
    next
      case e0: False
      then have inv: "scanInv b c k nb 0" using Suc.prems(1) False by (auto intro: dropStep_keep)
      have "dropColumn c k rnd (nb, 0, m, n) = (nb', e', m', n')"
        using Suc.prems(3) e0 False by (simp add: vacant_def)
      from Suc.IH[OF inv Suc.prems(2) this] show ?thesis using e0 by auto
    qed
  qed
qed


lemma fill_inv:
  assumes "gridShape nb" "c < GRID_COLS" "e \<le> GRID_ROWS"
    "fold (fillSlot A rnd c E) [0..<e] (nb, n) = (nb', n')"
  shows "gridShape nb' \<and> (\<forall>r c'. c' \<noteq> c \<or> e \<le> r \<longrightarrow> nb' ! r ! c' = nb ! r ! c') \<and>
         (\<forall>r < e. refilled A rnd r c (nb' ! r ! c))"
  using assms(3,4)
proof (induction e arbitrary: nb' n')
  case 0
  then show ?case using assms(1) by simp
next
  case (Suc e)
  obtain nb1 n1 where mid: "fold (fillSlot A rnd c E) [0..<e] (nb, n) = (nb1, n1)"
    by (cases "fold (fillSlot A rnd c E) [0..<e] (nb, n)")
  have e: "e < GRID_ROWS" using Suc.prems(1) by simp
  then have ih: "gridShape nb1" "\<forall>r c'. c' \<noteq> c \<or> e \<le> r \<longrightarrow> nb1 ! r ! c' = nb ! r ! c'"
    "\<forall>r < e. refilled A rnd r c (nb1 ! r ! c)"
    using Suc.IH[OF _ mid] by simp_all
  let ?x = "\<lparr>row = int e, col = int c,
               id = ''new-'' @ showNat c @ ''-'' @ showRandom (rnd (n1 + 1)),
               type = pickType A (rnd n1),
               special = (if pickType A (rnd n1) = Some RAINBOW then RAINBOW_special else NONE),
               status = DROPPING,
               visualRow = int e - int E, visualCol = int c, isBonus = None\<rparr>"
  have "fold (fillSlot A rnd c E) [0..<Suc e] (nb, n) =
      fillSlot A rnd c E e (fold (fillSlot A rnd c E) [0..<e] (nb, n))" by simp
  then have "fillSlot A rnd c E e (nb1, n1) = (nb', n')"
    using Suc.prems(2) mid by simp
  then have nb': "nb' = setCell nb1 e c ?x"
    by (simp add: fillSlot_def Let_def)
  note get = nth_setCell[OF ih(1) e assms(2)]
  have 1: "gridShape nb'" unfolding nb' using ih(1) by (rule gridShape_setCell)
  have 2: "\<forall>r c'. c' \<noteq> c \<or> Suc e \<le> r \<longrightarrow> nb' ! r ! c' = nb ! r ! c'"
    unfolding nb' using ih(2) by (auto simp: get)
  have x: "refilled A rnd e c ?x" unfolding refilled_def by auto
  have 3: "\<forall>r < Suc e. refilled A rnd r c (nb' ! r ! c)"
  proof (intro allI impI)
    fix r assume "r < Suc e"
    then consider "r = e" | "r < e" by linarith
    then show "refilled A rnd r c (nb' ! r ! c)"
    proof cases
      case 1 then show ?thesis unfolding nb' using x by (simp add: get)
    next
      case 2 then show ?thesis unfolding nb' using ih(3) by (simp add: get)
    qed
  qed
  show ?case using 1 2 3 by blast
qed

lemma survivors_short_iff:
  "length (survivors xs) < length xs \<longleftrightarrow> (\<exists>x \<in> set xs. vacant x)"
proof
  assume "length (survivors xs) < length xs"
  then have "survivors xs \<noteq> xs" by auto
  then show "\<exists>x \<in> set xs. vacant x" unfolding survivors_def by (metis filter_True)
next
  assume "\<exists>x \<in> set xs. vacant x"
  then show "length (survivors xs) < length xs"
    unfolding survivors_def by (auto intro: length_filter_less)
qed

lemma column_nth: "r < GRID_ROWS \<Longrightarrow> column b c ! r = b ! r ! c"
  by (simp add: column_def)

lemma length_column: "length (column b c) = GRID_ROWS"
  by (simp add: column_def)

lemma drop_column: "drop e (column b c) = map (\<lambda>r. b ! r ! c) [e..<GRID_ROWS]"
  by (simp add: column_def drop_map)


lemma scanInv_start: "gridShape b \<Longrightarrow> scanInv b c GRID_ROWS b 0"
  by (auto simp: scanInv_def survivors_def)

lemma gravityColumn_spec:
  assumes gs: "gridShape b0" and c: "c < GRID_COLS"
    and run: "gravityColumn A rnd c (b0, m0, n0) = (b1, m1, n1)"
  shows "gridShape b1 \<and> (\<forall>r c'. c' \<noteq> c \<longrightarrow> b1 ! r ! c' = b0 ! r ! c') \<and>
         columnPost A rnd c (column b0 c) (column b1 c) \<and>
         (m1 \<longleftrightarrow> m0 \<or> (\<exists>x \<in> set (column b0 c). vacant x))"
proof -
  obtain d e md nd where drop: "dropColumn c GRID_ROWS rnd (b0, 0, m0, n0) = (d, e, md, nd)"
    by (cases "dropColumn c GRID_ROWS rnd (b0, 0, m0, n0)")
  obtain f nf where fill: "fold (fillSlot A rnd c e) [0..<e] (d, nd) = (f, nf)"
    by (cases "fold (fillSlot A rnd c e) [0..<e] (d, nd)")
  from run drop fill have res: "b1 = f" "m1 \<longleftrightarrow> md \<or> 0 < e"
    by (simp_all add: gravityColumn_def)
  from dropColumn_inv[OF scanInv_start[OF gs] c drop]
  have inv: "scanInv b0 c 0 d e" and md: "m0 \<longrightarrow> md" "md \<longrightarrow> m0 \<or> 0 < e" by blast+
  from inv have gd: "gridShape d" and le: "e \<le> GRID_ROWS"
    and oth: "\<forall>r c'. c' \<noteq> c \<longrightarrow> d ! r ! c' = b0 ! r ! c'"
    and occ: "\<forall>r. e \<le> r \<and> r < GRID_ROWS \<longrightarrow> \<not> vacant (d ! r ! c)"
    and toks: "map token (map (\<lambda>r. d ! r ! c) [e..<GRID_ROWS]) =
       map token (survivors (map (\<lambda>r. b0 ! r ! c) [0..<GRID_ROWS]))"
    unfolding scanInv_def by simp_all
  from fill_inv[OF gd c le fill]
  have gf: "gridShape f" and same: "\<forall>r c'. c' \<noteq> c \<or> e \<le> r \<longrightarrow> f ! r ! c' = d ! r ! c'"
    and new: "\<forall>r < e. refilled A rnd r c (f ! r ! c)" by blast+
  have "length (map token (map (\<lambda>r. d ! r ! c) [e..<GRID_ROWS])) =
      length (map token (survivors (column b0 c)))"
    using toks by (simp add: column_def)
  then have len: "GRID_ROWS - e = length (survivors (column b0 c))" by simp
  then have e: "e = GRID_ROWS - length (survivors (column b0 c))" using le by simp
  have 1: "\<forall>r c'. c' \<noteq> c \<longrightarrow> f ! r ! c' = b0 ! r ! c'" using same oth by simp
  have m: "map (\<lambda>r. f ! r ! c) [e..<GRID_ROWS] = map (\<lambda>r. d ! r ! c) [e..<GRID_ROWS]"
    by (rule map_cong[OF refl]) (simp add: same)
  have 2: "map token (drop (GRID_ROWS - length (survivors (column b0 c))) (column f c)) =
      map token (survivors (column b0 c))"
    unfolding e[symmetric] drop_column m using toks by (simp add: column_def)
  have 3: "\<forall>r < GRID_ROWS - length (survivors (column b0 c)). refilled A rnd r c (column f c ! r)"
    unfolding e[symmetric] using new le by (simp add: column_nth)
  have 4: "\<forall>cell \<in> set (column f c). \<not> vacant cell"
  proof
    fix cell assume "cell \<in> set (column f c)"
    then obtain r where r: "r < GRID_ROWS" "cell = f ! r ! c" by (auto simp: column_def)
    show "\<not> vacant cell"
    proof (cases "r < e")
      case True
      then have "refilled A rnd r c cell" using new r by simp
      then show ?thesis by (simp add: refilled_def vacant_def)
    next
      case False
      then have "cell = d ! r ! c" "e \<le> r" using same r by simp_all
      then show ?thesis using occ r by simp
    qed
  qed
  have "0 < e \<longleftrightarrow> length (survivors (column b0 c)) < length (column b0 c)"
    using e le by (auto simp: length_column)
  then have 5: "0 < e \<longleftrightarrow> (\<exists>x \<in> set (column b0 c). vacant x)"
    by (simp add: survivors_short_iff)
  have 6: "m1 \<longleftrightarrow> m0 \<or> (\<exists>x \<in> set (column b0 c). vacant x)"
    using res(2) md 5 by blast
  show ?thesis
    unfolding columnPost_def res(1) using gf 1 2 3 4 6 by (simp add: length_column)
qed

lemma column_cong: "(\<And>r. b ! r ! c = b' ! r ! c) \<Longrightarrow> column b c = column b' c"
  by (simp add: column_def)

lemma gravity_columns:
  assumes gs: "gridShape b" and k: "k \<le> GRID_COLS"
    and run: "fold (gravityColumn A rnd) [0..<k] (b, False, n) = (nb, m, n')"
  shows "gridShape nb \<and> (\<forall>c < k. columnPost A rnd c (column b c) (column nb c)) \<and>
         (\<forall>c \<ge> k. column nb c = column b c) \<and>
         (m \<longleftrightarrow> (\<exists>c < k. \<exists>x \<in> set (column b c). vacant x))"
  using k run
proof (induction k arbitrary: nb m n')
  case 0
  then show ?case using gs by simp
next
  case (Suc k)
  obtain b1 m1 n1 where mid: "fold (gravityColumn A rnd) [0..<k] (b, False, n) = (b1, m1, n1)"
    by (cases "fold (gravityColumn A rnd) [0..<k] (b, False, n)")
  have k: "k < GRID_COLS" using Suc.prems(1) by simp
  then have ih: "gridShape b1" "\<forall>c < k. columnPost A rnd c (column b c) (column b1 c)"
    "\<forall>c \<ge> k. column b1 c = column b c"
    "m1 \<longleftrightarrow> (\<exists>c < k. \<exists>x \<in> set (column b c). vacant x)"
    using Suc.IH[OF _ mid] by simp_all
  have "fold (gravityColumn A rnd) [0..<Suc k] (b, False, n) =
      gravityColumn A rnd k (fold (gravityColumn A rnd) [0..<k] (b, False, n))" by simp
  then have step: "gravityColumn A rnd k (b1, m1, n1) = (nb, m, n')"
    using Suc.prems(2) mid by simp
  from gravityColumn_spec[OF ih(1) k step]
  have g: "gridShape nb" and oth: "\<forall>r c'. c' \<noteq> k \<longrightarrow> nb ! r ! c' = b1 ! r ! c'"
    and post: "columnPost A rnd k (column b1 k) (column nb k)"
    and mv: "m \<longleftrightarrow> m1 \<or> (\<exists>x \<in> set (column b1 k). vacant x)" by blast+
  have cols: "column nb c = column b1 c" if "c \<noteq> k" for c
    using oth that by (intro column_cong) simp
  have bk: "column b1 k = column b k" using ih(3) by simp
  have 2: "\<forall>c < Suc k. columnPost A rnd c (column b c) (column nb c)"
  proof (intro allI impI)
    fix c assume "c < Suc k"
    then consider "c = k" | "c < k" by linarith
    then show "columnPost A rnd c (column b c) (column nb c)"
    proof cases
      case 1 then show ?thesis using post bk by simp
    next
      case 2 then show ?thesis using ih(2) cols[of c] by simp
    qed
  qed
  have 3: "\<forall>c \<ge> Suc k. column nb c = column b c" using ih(3) cols by simp
  have 4: "m \<longleftrightarrow> (\<exists>c < Suc k. \<exists>x \<in> set (column b c). vacant x)"
    unfolding mv ih(4) bk by (auto simp: less_Suc_eq)
  show ?case using g 2 3 4 by blast
qed


lemma cells_columns:
  assumes "gridShape b"
  shows "set (concat b) = (\<Union>c \<in> {0..<GRID_COLS}. set (column b c))"
proof -
  have len: "length b = GRID_ROWS" "\<And>r. r < GRID_ROWS \<Longrightarrow> length (b ! r) = GRID_COLS"
    using assms by (auto simp: gridShape_def)
  have "set (concat b) = {b ! r ! c | r c. r < GRID_ROWS \<and> c < GRID_COLS}"
  proof (intro set_eqI iffI)
    fix x assume "x \<in> set (concat b)"
    then obtain rw where rw: "rw \<in> set b" "x \<in> set rw" by auto
    then obtain r where r: "r < length b" "rw = b ! r" by (auto simp: in_set_conv_nth)
    from rw(2) obtain c where c: "c < length rw" "x = rw ! c" by (auto simp: in_set_conv_nth)
    show "x \<in> {b ! r ! c | r c. r < GRID_ROWS \<and> c < GRID_COLS}"
      using r c len by auto
  next
    fix x assume "x \<in> {b ! r ! c | r c. r < GRID_ROWS \<and> c < GRID_COLS}"
    then obtain r c where rc: "x = b ! r ! c" "r < GRID_ROWS" "c < GRID_COLS" by blast
    then have "b ! r \<in> set b" "x \<in> set (b ! r)" using len by auto
    then show "x \<in> set (concat b)" by auto
  qed
  also have "\<dots> = (\<Union>c \<in> {0..<GRID_COLS}. set (column b c))"
  proof (intro set_eqI iffI)
    fix x assume "x \<in> {b ! r ! c | r c. r < GRID_ROWS \<and> c < GRID_COLS}"
    then obtain r c where rc: "x = b ! r ! c" "r < GRID_ROWS" "c < GRID_COLS" by blast
    then have "x \<in> set (column b c)" "c \<in> {0..<GRID_COLS}" by (simp_all add: column_def)
    then show "x \<in> (\<Union>c \<in> {0..<GRID_COLS}. set (column b c))" by blast
  next
    fix x assume "x \<in> (\<Union>c \<in> {0..<GRID_COLS}. set (column b c))"
    then obtain c where c: "c < GRID_COLS" "x \<in> set (column b c)" by auto
    then obtain r where "r < GRID_ROWS" "x = b ! r ! c" by (auto simp: column_def)
    then show "x \<in> {b ! r ! c | r c. r < GRID_ROWS \<and> c < GRID_COLS}" using c by blast
  qed
  finally show ?thesis .
qed

lemma applyGravity_columns:
  assumes "gridShape board"
  shows "gridShape (newBoard (fst (applyGravity board A rnd n))) \<and>
         (\<forall>c < GRID_COLS. columnPost A rnd c (column board c)
              (column (newBoard (fst (applyGravity board A rnd n))) c)) \<and>
         (movesDetected (fst (applyGravity board A rnd n)) \<longleftrightarrow>
            (\<exists>c < GRID_COLS. \<exists>x \<in> set (column board c). vacant x))"
proof -
  obtain nb m n' where run: "fold (gravityColumn A rnd) [0..<GRID_COLS] (board, False, n) = (nb, m, n')"
    by (cases "fold (gravityColumn A rnd) [0..<GRID_COLS] (board, False, n)")
  then have "fst (applyGravity board A rnd n) = \<lparr>newBoard = nb, movesDetected = m\<rparr>"
    by (simp add: applyGravity_def)
  then show ?thesis using gravity_columns[OF assms le_refl run] by simp
qed

text \<open>
  C10. On a board of the grid's shape, the board returned by \<open>applyGravity\<close> has the grid's
  shape and none of its cells has status \<open>MATCHED\<close> or \<open>EMPTY\<close>; \<open>movesDetected\<close> is true
  exactly when some cell of the input board had status \<open>MATCHED\<close> or \<open>EMPTY\<close>.
\<close>

theorem applyGravity_fills:
  assumes "gridShape board"
  shows "gridShape (newBoard (fst (applyGravity board allowedTypes rnd n))) \<and>
         (\<forall>cell \<in> set (concat (newBoard (fst (applyGravity board allowedTypes rnd n)))).
            status cell \<noteq> MATCHED \<and> status cell \<noteq> EMPTY) \<and>
         (movesDetected (fst (applyGravity board allowedTypes rnd n)) \<longleftrightarrow>
            (\<exists>cell \<in> set (concat board). status cell = MATCHED \<or> status cell = EMPTY))"
proof -
  let ?out = "newBoard (fst (applyGravity board allowedTypes rnd n))"
  from applyGravity_columns[OF assms, of allowedTypes rnd n]
  have g: "gridShape ?out"
    and post: "\<forall>c < GRID_COLS. columnPost allowedTypes rnd c (column board c) (column ?out c)"
    and mv: "movesDetected (fst (applyGravity board allowedTypes rnd n)) \<longleftrightarrow>
            (\<exists>c < GRID_COLS. \<exists>x \<in> set (column board c). vacant x)" by blast+
  have "\<forall>cell \<in> set (concat ?out). \<not> vacant cell"
    unfolding cells_columns[OF g] using post by (auto simp: columnPost_def)
  then have 1: "\<forall>cell \<in> set (concat ?out). status cell \<noteq> MATCHED \<and> status cell \<noteq> EMPTY"
    by (simp add: vacant_def)
  have "(\<exists>c < GRID_COLS. \<exists>x \<in> set (column board c). vacant x) \<longleftrightarrow>
        (\<exists>cell \<in> set (concat board). vacant cell)"
    unfolding cells_columns[OF assms] by auto
  then have 2: "movesDetected (fst (applyGravity board allowedTypes rnd n)) \<longleftrightarrow>
            (\<exists>cell \<in> set (concat board). status cell = MATCHED \<or> status cell = EMPTY)"
    using mv by (simp add: vacant_def)
  show ?thesis using g 1 2 by blast
qed

text \<open>
  C2 (as amended). On a board of the grid's shape, \<open>applyGravity\<close> keeps the occupied cells of
  every column: the column it returns ends with the tokens of the cells that were occupied,
  in their order from the top, and the slots above them are refilled with new dropping cells.
\<close>

theorem applyGravity_keeps_order:
  assumes "gridShape board" and "c < GRID_COLS"
  shows "length (column (newBoard (fst (applyGravity board allowedTypes rnd n))) c) = GRID_ROWS \<and>
         map token (drop (GRID_ROWS - occupiedCount board c)
                     (column (newBoard (fst (applyGravity board allowedTypes rnd n))) c)) =
           map token (survivors (column board c)) \<and>
         (\<forall>r < GRID_ROWS - occupiedCount board c.
            refilled allowedTypes rnd r c
              (column (newBoard (fst (applyGravity board allowedTypes rnd n))) c ! r))"
  using applyGravity_columns[OF assms(1), of allowedTypes rnd n] assms(2)
  unfolding columnPost_def occupiedCount_def by blast


lemmas clearedBoard_lit = clearedBoard_def[unfolded exampleBoard_lit, simplified]

lemma clearedBoard_shape: "gridShape clearedBoard"
  by (simp add: gridShape_def clearedBoard_lit GRID_ROWS_def GRID_COLS_def)

lemma clearedBoard_column0: "occupiedCount clearedBoard 0 = 7"
  by (simp add: occupiedCount_def column_def survivors_def vacant_def GRID_ROWS_def upt8
        clearedBoard_lit)

theorem applyGravity_fills_witness:
  "gridShape clearedBoard \<and>
   gridShape (newBoard (fst (applyGravity clearedBoard levelOneTypes exampleRnd 0))) \<and>
   movesDetected (fst (applyGravity clearedBoard levelOneTypes exampleRnd 0))"
proof -
  have "clearedBoard ! 2 ! 0 \<in> set (concat clearedBoard)"
    "status (clearedBoard ! 2 ! 0) = MATCHED"
    by (simp_all add: clearedBoard_lit)
  then have "\<exists>cell \<in> set (concat clearedBoard). status cell = MATCHED \<or> status cell = EMPTY"
    by blast
  then show ?thesis
    using applyGravity_fills[OF clearedBoard_shape, of levelOneTypes exampleRnd 0]
      clearedBoard_shape by blast
qed

theorem applyGravity_keeps_order_witness:
  "gridShape clearedBoard \<and> (0::nat) < GRID_COLS \<and> occupiedCount clearedBoard 0 = 7 \<and>
   map token (drop 1 (column (newBoard (fst (applyGravity clearedBoard levelOneTypes exampleRnd 0))) 0)) =
     map token (survivors (column clearedBoard 0)) \<and>
   refilled levelOneTypes exampleRnd 0 0
     (column (newBoard (fst (applyGravity clearedBoard levelOneTypes exampleRnd 0))) 0 ! 0)"
proof -
  have c: "(0::nat) < GRID_COLS" by (simp add: GRID_COLS_def)
  have d: "GRID_ROWS - occupiedCount clearedBoard 0 = 1"
    by (simp add: clearedBoard_column0 GRID_ROWS_def)
  from applyGravity_keeps_order[OF clearedBoard_shape c, of levelOneTypes exampleRnd 0]
  show ?thesis unfolding d using clearedBoard_shape c clearedBoard_column0 by simp
qed

text \<open>
  Read as a count of cells whose status is neither \<open>MATCHED\<close> nor \<open>EMPTY\<close>, the number of
  occupied cells of a column is not preserved: the refill occupies every slot. Column 0 of
  the example has seven occupied cells before the call and eight after it.
\<close>

theorem occupiedCount_counterexample:
  "occupiedCount (newBoard (fst (applyGravity clearedBoard levelOneTypes exampleRnd 0))) 0 \<noteq>
   occupiedCount clearedBoard 0"
proof -
  let ?out = "newBoard (fst (applyGravity clearedBoard levelOneTypes exampleRnd 0))"
  have c: "(0::nat) < GRID_COLS" by (simp add: GRID_COLS_def)
  from applyGravity_columns[OF clearedBoard_shape, of levelOneTypes exampleRnd 0] c
  have "columnPost levelOneTypes exampleRnd 0 (column clearedBoard 0) (column ?out 0)" by blast
  then have "\<forall>cell \<in> set (column ?out 0). \<not> vacant cell" "length (column ?out 0) = GRID_ROWS"
    by (simp_all add: columnPost_def)
  then have "occupiedCount ?out 0 = 8"
    by (simp add: occupiedCount_def survivors_def GRID_ROWS_def)
  then show ?thesis by (simp add: clearedBoard_column0)
qed

section \<open>Verification: connected groups\<close>

lemma floodFill_inv:
  assumes "floodFill board matchedIds (visited, queue, grp) = (visited', grp')"
    and "distinct (map id (prev @ grp @ queue))"
    and "set (map id (prev @ grp @ queue)) = visited"
    and "visited \<subseteq> matchedIds \<inter> boardIds board"
    and "\<forall>x \<in> set (grp @ queue). type x = t"
  shows "distinct (map id (prev @ grp')) \<and> set (map id (prev @ grp')) = visited' \<and>
         visited' \<subseteq> matchedIds \<inter> boardIds board \<and> (\<forall>x \<in> set grp'. type x = t) \<and>
         visited \<subseteq> visited'"
  using assms
proof (induction board matchedIds "(visited, queue, grp)" arbitrary: visited queue grp
    rule: floodFill.induct)
  case (1 board matchedIds visited grp)
  then show ?case by simp
next
  case (2 board matchedIds visited current rest grp)
  let ?res = "fold (visitNeighbor board matchedIds current) (neighbors current) (visited, rest)"
  have "?res = (fst ?res, snd ?res)" by simp
  from visit_fold[OF this] obtain pushed where p:
    "snd ?res = rest @ pushed" "fst ?res = visited \<union> set (map id pushed)"
    "distinct (map id pushed)" "set (map id pushed) \<inter> visited = {}"
    "\<forall>x \<in> set pushed. id x \<in> boardIds board \<and> id x \<in> matchedIds \<and> type x = type current"
    by blast
  have tc: "type current = t" using "2.prems"(5) by simp
  have run: "floodFill board matchedIds (fst ?res, snd ?res, grp @ [current]) = (visited', grp')"
    using "2.prems"(1) by simp
  have d: "distinct (map id (prev @ (grp @ [current]) @ snd ?res))"
    using "2.prems"(2,3) p(1,3,4) by auto
  have s: "set (map id (prev @ (grp @ [current]) @ snd ?res)) = fst ?res"
    using "2.prems"(3) p(1,2) by auto
  have m: "fst ?res \<subseteq> matchedIds \<inter> boardIds board"
    using "2.prems"(4) p(2,5) by auto
  have ty: "\<forall>x \<in> set ((grp @ [current]) @ snd ?res). type x = t"
    using "2.prems"(5) p(1,5) tc by auto
  from "2.hyps"[OF run d s m ty] show ?case using p(2) by auto
qed


lemma cell_in_boardIds: "r < GRID_ROWS \<Longrightarrow> c < GRID_COLS \<Longrightarrow> id (board ! r ! c) \<in> boardIds board"
proof -
  assume "r < GRID_ROWS" "c < GRID_COLS"
  then have "r \<in> {0..<GRID_ROWS}" "c \<in> {0..<GRID_COLS}" by simp_all
  then show ?thesis unfolding boardIds_def by blast
qed

lemma scanSeed_inv:
  assumes inv: "groupsInv board matchedIds st" and rc: "r < GRID_ROWS" "c < GRID_COLS"
  shows "groupsInv board matchedIds (scanSeed board matchedIds (r, c) st) \<and>
         fst st \<subseteq> fst (scanSeed board matchedIds (r, c) st) \<and>
         (id (board ! r ! c) \<in> matchedIds \<longrightarrow>
            id (board ! r ! c) \<in> fst (scanSeed board matchedIds (r, c) st))"
proof -
  obtain visited groups where st: "st = (visited, groups)" by (cases st)
  let ?cell = "board ! r ! c"
  from inv st have d: "distinct (map id (concat groups))"
    and v: "set (map id (concat groups)) = visited"
    and sub: "visited \<subseteq> matchedIds \<inter> boardIds board"
    and ty: "\<forall>grp \<in> set groups. \<exists>t. \<forall>x \<in> set grp. type x = t"
    by (simp_all add: groupsInv_def)
  show ?thesis
  proof (cases "id ?cell \<in> matchedIds \<and> id ?cell \<notin> visited")
    case False
    then have "scanSeed board matchedIds (r, c) st = st" by (auto simp: scanSeed_def st Let_def)
    then show ?thesis using inv False st by auto
  next
    case True
    obtain visited' grp' where ff:
      "floodFill board matchedIds (insert (id ?cell) visited, [?cell], []) = (visited', grp')"
      by (cases "floodFill board matchedIds (insert (id ?cell) visited, [?cell], [])")
    have res: "scanSeed board matchedIds (r, c) (visited, groups) = (visited', groups @ [grp'])"
      using True ff by (simp add: scanSeed_def Let_def)
    have 1: "distinct (map id (concat groups @ [] @ [?cell]))" using d v True by auto
    have 2: "set (map id (concat groups @ [] @ [?cell])) = insert (id ?cell) visited" using v by auto
    have 3: "insert (id ?cell) visited \<subseteq> matchedIds \<inter> boardIds board"
      using sub True cell_in_boardIds[OF rc] by auto
    have 4: "\<forall>x \<in> set ([] @ [?cell]). type x = type ?cell" by simp
    from floodFill_inv[OF ff 1 2 3 4]
    have r: "distinct (map id (concat groups @ grp'))" "set (map id (concat groups @ grp')) = visited'"
      "visited' \<subseteq> matchedIds \<inter> boardIds board" "\<forall>x \<in> set grp'. type x = type ?cell"
      "insert (id ?cell) visited \<subseteq> visited'" by blast+
    have u: "\<exists>t. \<forall>x \<in> set grp'. type x = t" using r(4) by blast
    have "groupsInv board matchedIds (visited', groups @ [grp'])"
      unfolding groupsInv_def using r(1,2,3) ty u by auto
    then show ?thesis unfolding st res using r(5) by auto
  qed
qed

lemma seeds_row:
  assumes "groupsInv board matchedIds st" "r < GRID_ROWS" "\<forall>c \<in> set cs. c < GRID_COLS"
  shows "groupsInv board matchedIds (fold (\<lambda>c. scanSeed board matchedIds (r, c)) cs st) \<and>
         fst st \<subseteq> fst (fold (\<lambda>c. scanSeed board matchedIds (r, c)) cs st) \<and>
         (\<forall>c \<in> set cs. id (board ! r ! c) \<in> matchedIds \<longrightarrow>
            id (board ! r ! c) \<in> fst (fold (\<lambda>c. scanSeed board matchedIds (r, c)) cs st))"
  using assms
proof (induction cs arbitrary: st)
  case Nil
  then show ?case by simp
next
  case (Cons c cs)
  let ?st = "scanSeed board matchedIds (r, c) st"
  have c: "c < GRID_COLS" using Cons.prems(3) by simp
  from scanSeed_inv[OF Cons.prems(1,2) c]
  have one: "groupsInv board matchedIds ?st" "fst st \<subseteq> fst ?st"
    "id (board ! r ! c) \<in> matchedIds \<longrightarrow> id (board ! r ! c) \<in> fst ?st" by blast+
  have "\<forall>c \<in> set cs. c < GRID_COLS" using Cons.prems(3) by simp
  from Cons.IH[OF one(1) Cons.prems(2) this]
  have ih: "groupsInv board matchedIds (fold (\<lambda>c. scanSeed board matchedIds (r, c)) cs ?st)"
    "fst ?st \<subseteq> fst (fold (\<lambda>c. scanSeed board matchedIds (r, c)) cs ?st)"
    "\<forall>c \<in> set cs. id (board ! r ! c) \<in> matchedIds \<longrightarrow>
            id (board ! r ! c) \<in> fst (fold (\<lambda>c. scanSeed board matchedIds (r, c)) cs ?st)"
    by blast+
  show ?case using one ih by auto
qed

lemma seeds_rows:
  assumes "groupsInv board matchedIds st" "\<forall>r \<in> set rs. r < GRID_ROWS"
  shows "groupsInv board matchedIds
           (fold (\<lambda>r. fold (\<lambda>c. scanSeed board matchedIds (r, c)) [0..<GRID_COLS]) rs st) \<and>
         fst st \<subseteq> fst (fold (\<lambda>r. fold (\<lambda>c. scanSeed board matchedIds (r, c)) [0..<GRID_COLS]) rs st) \<and>
         (\<forall>r \<in> set rs. \<forall>c < GRID_COLS. id (board ! r ! c) \<in> matchedIds \<longrightarrow>
            id (board ! r ! c) \<in>
              fst (fold (\<lambda>r. fold (\<lambda>c. scanSeed board matchedIds (r, c)) [0..<GRID_COLS]) rs st))"
  using assms
proof (induction rs arbitrary: st)
  case Nil
  then show ?case by simp
next
  case (Cons r rs)
  let ?st = "fold (\<lambda>c. scanSeed board matchedIds (r, c)) [0..<GRID_COLS] st"
  have r: "r < GRID_ROWS" using Cons.prems(2) by simp
  have "\<forall>c \<in> set [0..<GRID_COLS]. c < GRID_COLS" by simp
  from seeds_row[OF Cons.prems(1) r this]
  have one: "groupsInv board matchedIds ?st" "fst st \<subseteq> fst ?st"
    "\<forall>c < GRID_COLS. id (board ! r ! c) \<in> matchedIds \<longrightarrow> id (board ! r ! c) \<in> fst ?st"
    by auto
  have "\<forall>r \<in> set rs. r < GRID_ROWS" using Cons.prems(2) by simp
  from Cons.IH[OF one(1) this]
  have ih: "groupsInv board matchedIds
           (fold (\<lambda>r. fold (\<lambda>c. scanSeed board matchedIds (r, c)) [0..<GRID_COLS]) rs ?st)"
    "fst ?st \<subseteq> fst (fold (\<lambda>r. fold (\<lambda>c. scanSeed board matchedIds (r, c)) [0..<GRID_COLS]) rs ?st)"
    "\<forall>r \<in> set rs. \<forall>c < GRID_COLS. id (board ! r ! c) \<in> matchedIds \<longrightarrow>
            id (board ! r ! c) \<in>
              fst (fold (\<lambda>r. fold (\<lambda>c. scanSeed board matchedIds (r, c)) [0..<GRID_COLS]) rs ?st)"
    by blast+
  show ?case using one ih by auto
qed

lemma distinct_concat_unique:
  assumes "distinct (concat xss)" "k < length xss" "k' < length xss"
    "x \<in> set (xss ! k)" "x \<in> set (xss ! k')"
  shows "k = k'"
  using assms
proof (induction xss arbitrary: k k')
  case Nil
  then show ?case by simp
next
  case (Cons xs xss)
  show ?case
  proof (cases k)
    case 0
    show ?thesis
    proof (cases k')
      case 0 with \<open>k = 0\<close> show ?thesis by simp
    next
      case (Suc j')
      then have "x \<in> set (concat xss)" using Cons.prems(3,5) by auto
      then show ?thesis using Cons.prems(1,4) \<open>k = 0\<close> by auto
    qed
  next
    case (Suc j)
    show ?thesis
    proof (cases k')
      case 0
      have "x \<in> set (concat xss)" using Cons.prems(2,4) Suc by auto
      then show ?thesis using Cons.prems(1,5) 0 by auto
    next
      case (Suc j')
      have "j = j'" using Cons.prems \<open>k = Suc j\<close> Suc by (intro Cons.IH) auto
      then show ?thesis using \<open>k = Suc j\<close> Suc by simp
    qed
  qed
qed

text \<open>
  C4. On a board of the grid's shape and for a matched set whose identifiers all occur on the
  board, the groups returned by \<open>getConnectedGroups\<close> partition the matched set: over all
  groups no identifier occurs twice, the identifiers that occur are exactly the matched ones,
  each matched identifier lies in exactly one group, and the cells of a group have one token
  type.
\<close>

theorem getConnectedGroups_partition:
  assumes "gridShape board" and "matchedIds \<subseteq> boardIds board"
  shows "distinct (map id (concat (getConnectedGroups board matchedIds))) \<and>
         set (map id (concat (getConnectedGroups board matchedIds))) = matchedIds \<and>
         (\<forall>i \<in> matchedIds. \<exists>!k. k < length (getConnectedGroups board matchedIds) \<and>
              i \<in> set (map id (getConnectedGroups board matchedIds ! k))) \<and>
         (\<forall>grp \<in> set (getConnectedGroups board matchedIds).
            \<forall>x \<in> set grp. \<forall>y \<in> set grp. type x = type y)"
proof -
  let ?st = "fold (\<lambda>r. fold (\<lambda>c. scanSeed board matchedIds (r, c)) [0..<GRID_COLS]) [0..<GRID_ROWS]
            ({}, [])"
  let ?gs = "getConnectedGroups board matchedIds"
  have gs: "?gs = snd ?st" by (simp add: getConnectedGroups_def)
  have start: "groupsInv board matchedIds ({}, [])" by (simp add: groupsInv_def)
  have "\<forall>r \<in> set [0..<GRID_ROWS]. r < GRID_ROWS" by simp
  from seeds_rows[OF start this]
  have inv: "groupsInv board matchedIds ?st"
    and cov: "\<forall>r < GRID_ROWS. \<forall>c < GRID_COLS. id (board ! r ! c) \<in> matchedIds \<longrightarrow>
            id (board ! r ! c) \<in> fst ?st" by auto
  from inv have d: "distinct (map id (concat ?gs))"
    and v: "set (map id (concat ?gs)) = fst ?st"
    and sub: "fst ?st \<subseteq> matchedIds \<inter> boardIds board"
    and ty1: "\<forall>grp \<in> set ?gs. \<exists>t. \<forall>x \<in> set grp. type x = t"
    unfolding gs groupsInv_def by (simp_all add: case_prod_unfold)
  have ty: "\<forall>grp \<in> set ?gs. \<forall>x \<in> set grp. \<forall>y \<in> set grp. type x = type y"
  proof (intro ballI)
    fix grp x y assume "grp \<in> set ?gs" "x \<in> set grp" "y \<in> set grp"
    then obtain t where "type x = t" "type y = t" using ty1 by blast
    then show "type x = type y" by simp
  qed
  have "matchedIds \<subseteq> fst ?st"
  proof
    fix i assume i: "i \<in> matchedIds"
    then have "i \<in> boardIds board" using assms(2) by blast
    then obtain r c where "r < GRID_ROWS" "c < GRID_COLS" "i = id (board ! r ! c)"
      unfolding boardIds_def by auto
    then show "i \<in> fst ?st" using cov i by blast
  qed
  then have eq: "set (map id (concat ?gs)) = matchedIds" using v sub by blast
  have uniq: "\<forall>i \<in> matchedIds. \<exists>!k. k < length ?gs \<and> i \<in> set (map id (?gs ! k))"
  proof
    fix i assume "i \<in> matchedIds"
    then have "i \<in> set (map id (concat ?gs))" using eq by simp
    then obtain x where x: "x \<in> set (concat ?gs)" "i = id x" by auto
    then obtain g where g: "g \<in> set ?gs" "x \<in> set g" by auto
    then obtain k where "k < length ?gs" "g = ?gs ! k" by (auto simp: in_set_conv_nth)
    then have k: "k < length ?gs" "i \<in> set (map id (?gs ! k))" using g x by auto
    have dd: "distinct (concat (map (map id) ?gs))" using d by (simp add: map_concat)
    show "\<exists>!k. k < length ?gs \<and> i \<in> set (map id (?gs ! k))"
    proof (rule ex1I[of _ k])
      show "k < length ?gs \<and> i \<in> set (map id (?gs ! k))" using k by simp
    next
      fix k' assume k': "k' < length ?gs \<and> i \<in> set (map id (?gs ! k'))"
      show "k' = k"
        using distinct_concat_unique[OF dd, of k' k i] k k' by simp
    qed
  qed
  show ?thesis using d eq uniq ty by blast
qed


theorem getConnectedGroups_partition_witness:
  "gridShape exampleBoard \<and> {''20'', ''21'', ''22'', ''23''} \<subseteq> boardIds exampleBoard \<and>
   distinct (map id (concat (getConnectedGroups exampleBoard {''20'', ''21'', ''22'', ''23''}))) \<and>
   set (map id (concat (getConnectedGroups exampleBoard {''20'', ''21'', ''22'', ''23''}))) =
     {''20'', ''21'', ''22'', ''23''}"
proof -
  have b: "(2::nat) < GRID_ROWS" "(0::nat) < GRID_COLS" "(1::nat) < GRID_COLS"
    "(2::nat) < GRID_COLS" "(3::nat) < GRID_COLS"
    by (simp_all add: GRID_ROWS_def GRID_COLS_def)
  have ids: "id (exampleBoard ! 2 ! 0) = ''20''" "id (exampleBoard ! 2 ! 1) = ''21''"
    "id (exampleBoard ! 2 ! 2) = ''22''" "id (exampleBoard ! 2 ! 3) = ''23''"
    by (simp_all add: exampleBoard_lit)
  have sub: "{''20'', ''21'', ''22'', ''23''} \<subseteq> boardIds exampleBoard"
    using cell_in_boardIds[OF b(1) b(2), of exampleBoard] cell_in_boardIds[OF b(1) b(3), of exampleBoard]
      cell_in_boardIds[OF b(1) b(4), of exampleBoard] cell_in_boardIds[OF b(1) b(5), of exampleBoard]
    unfolding ids by simp
  from getConnectedGroups_partition[OF exampleBoard_shape sub]
  show ?thesis using exampleBoard_shape sub by blast
qed

section \<open>Verification: initial board\<close>

lemma pickType_empty: "pickType [] x = None"
  by (simp add: pickType_def)

lemma drawType_stuck:
  assumes "2 \<le> c" "type (rowCells ! (c - 1)) = None" "type (rowCells ! (c - 2)) = None"
  shows "drawType [] rnd board rowCells r c n = None"
proof (rule ccontr)
  assume "drawType [] rnd board rowCells r c n \<noteq> None"
  then obtain y where y: "drawType [] rnd board rowCells r c n = Some y" by auto
  have "\<not> (([]::GemType list) = [] \<and> 2 \<le> c \<and> type (rowCells ! (c - 1)) = None \<and>
            type (rowCells ! (c - 2)) = None)"
  proof (rule drawType.raw_induct[where P = "\<lambda>A rnd board rowCells r c n y.
      \<not> (A = [] \<and> 2 \<le> c \<and> type (rowCells ! (c - 1)) = None \<and> type (rowCells ! (c - 2)) = None)",
      OF _ y])
    fix f :: "GemType list \<Rightarrow> rng \<Rightarrow> Cell list list \<Rightarrow> Cell list \<Rightarrow> nat \<Rightarrow> nat \<Rightarrow> nat \<Rightarrow>
              (GemType option \<times> nat) option"
      and A rnd board rowCells r c n y
    assume ih: "\<And>A rnd board rowCells r c n y. f A rnd board rowCells r c n = Some y \<Longrightarrow>
        \<not> (A = [] \<and> 2 \<le> c \<and> type (rowCells ! (c - 1)) = None \<and> type (rowCells ! (c - 2)) = None)"
      and step: "(let ty = pickType A (rnd n) in
          if (c \<ge> 2 \<and> type (rowCells ! (c - 1)) = ty \<and> type (rowCells ! (c - 2)) = ty) \<or>
             (r \<ge> 2 \<and> type (board ! (r - 1) ! c) = ty \<and> type (board ! (r - 2) ! c) = ty)
          then f A rnd board rowCells r c (n + 1)
          else Some (ty, n + 1)) = Some y"
    show "\<not> (A = [] \<and> 2 \<le> c \<and> type (rowCells ! (c - 1)) = None \<and> type (rowCells ! (c - 2)) = None)"
    proof
      assume stuck: "A = [] \<and> 2 \<le> c \<and> type (rowCells ! (c - 1)) = None \<and> type (rowCells ! (c - 2)) = None"
      then have "f A rnd board rowCells r c (n + 1) = Some y"
        using step by (simp add: pickType_empty)
      from ih[OF this] stuck show False by blast
    qed
  qed
  then show False using assms by simp
qed

lemma buildRow_empty: "buildRow [] rnd [] 0 [0..<GRID_COLS] ([], n) = None"
proof -
  have cols: "[0..<GRID_COLS] = 0 # Suc 0 # Suc (Suc 0) # [3..<GRID_COLS]"
    by (simp add: GRID_COLS_def upt_rec)
  have d01: "drawType [] rnd [] cells 0 c k = Some (None, Suc k)" if "c < 2" for cells c k
    using that by (subst drawType.simps) (simp add: pickType_empty)
  have d2: "drawType [] rnd [] cells 0 (Suc (Suc 0)) k = None"
    if "type (cells ! Suc 0) = None" "type (cells ! 0) = None" for cells k
    using that by (intro drawType_stuck) simp_all
  show ?thesis unfolding cols by (simp add: d01 d2)
qed

lemma buildRows_empty: "buildRows [] rnd [0..<GRID_ROWS] ([], n) = None"
proof -
  have rows: "[0..<GRID_ROWS] = 0 # [1..<GRID_ROWS]"
    by (simp add: GRID_ROWS_def upt_rec)
  show ?thesis unfolding rows by (simp add: buildRow_empty)
qed

text \<open>
  C6 (as amended). \<open>createInitialBoard\<close> does not check its argument. With an empty set of
  allowed types it signals no error and returns no board: the first two cells of row 0 get
  the type \<open>undefined\<close>, and the loop that draws the type of the third never exits.
\<close>

theorem createInitialBoard_empty: "createInitialBoard [] rnd n = None"
  unfolding createInitialBoard_def by (rule buildRows_empty)

text \<open>
  The specification asks for a configuration error at construction time. On the empty set
  of types the call has no outcome at all.
\<close>

theorem createInitialBoard_counterexample: "createInitialBoard [] zeroRnd 0 = None"
  unfolding createInitialBoard_def by (rule buildRows_empty)


lemma drawType_accept:
  assumes "drawType A rnd board rowCells r c n = Some (ty, n')"
  shows "\<not> (2 \<le> c \<and> type (rowCells ! (c - 1)) = ty \<and> type (rowCells ! (c - 2)) = ty) \<and>
         \<not> (2 \<le> r \<and> type (board ! (r - 1) ! c) = ty \<and> type (board ! (r - 2) ! c) = ty)"
proof -
  have "case (ty, n') of (ty, n') \<Rightarrow>
      \<not> (2 \<le> c \<and> type (rowCells ! (c - 1)) = ty \<and> type (rowCells ! (c - 2)) = ty) \<and>
      \<not> (2 \<le> r \<and> type (board ! (r - 1) ! c) = ty \<and> type (board ! (r - 2) ! c) = ty)"
  proof (rule drawType.raw_induct[where P = "\<lambda>A rnd board rowCells r c n y. case y of (ty, n') \<Rightarrow>
      \<not> (2 \<le> c \<and> type (rowCells ! (c - 1)) = ty \<and> type (rowCells ! (c - 2)) = ty) \<and>
      \<not> (2 \<le> r \<and> type (board ! (r - 1) ! c) = ty \<and> type (board ! (r - 2) ! c) = ty)",
      OF _ assms])
    fix f :: "GemType list \<Rightarrow> rng \<Rightarrow> Cell list list \<Rightarrow> Cell list \<Rightarrow> nat \<Rightarrow> nat \<Rightarrow> nat \<Rightarrow>
              (GemType option \<times> nat) option"
      and A rnd board rowCells r c n y
    assume ih: "\<And>A rnd board rowCells r c n y. f A rnd board rowCells r c n = Some y \<Longrightarrow>
        (case y of (ty, n') \<Rightarrow>
          \<not> (2 \<le> c \<and> type (rowCells ! (c - 1)) = ty \<and> type (rowCells ! (c - 2)) = ty) \<and>
          \<not> (2 \<le> r \<and> type (board ! (r - 1) ! c) = ty \<and> type (board ! (r - 2) ! c) = ty))"
      and step: "(let ty = pickType A (rnd n) in
          if (c \<ge> 2 \<and> type (rowCells ! (c - 1)) = ty \<and> type (rowCells ! (c - 2)) = ty) \<or>
             (r \<ge> 2 \<and> type (board ! (r - 1) ! c) = ty \<and> type (board ! (r - 2) ! c) = ty)
          then f A rnd board rowCells r c (n + 1)
          else Some (ty, n + 1)) = Some y"
    let ?ty = "pickType A (rnd n)"
    show "case y of (ty, n') \<Rightarrow>
          \<not> (2 \<le> c \<and> type (rowCells ! (c - 1)) = ty \<and> type (rowCells ! (c - 2)) = ty) \<and>
          \<not> (2 \<le> r \<and> type (board ! (r - 1) ! c) = ty \<and> type (board ! (r - 2) ! c) = ty)"
    proof (cases "(c \<ge> 2 \<and> type (rowCells ! (c - 1)) = ?ty \<and> type (rowCells ! (c - 2)) = ?ty) \<or>
             (r \<ge> 2 \<and> type (board ! (r - 1) ! c) = ?ty \<and> type (board ! (r - 2) ! c) = ?ty)")
      case True
      then have "f A rnd board rowCells r c (n + 1) = Some y"
        using step unfolding Let_def by (simp only: if_True)
      from ih[OF this] show ?thesis .
    next
      case False
      then have "y = (?ty, n + 1)" using step unfolding Let_def by (simp only: if_False) simp
      then show ?thesis using False by simp
    qed
  qed
  then show ?thesis by simp
qed

lemma buildRow_inv:
  assumes "buildRow A rnd board (length board) cs (rowCells, n) = Some (cells', n')"
    and "cs = [length rowCells..<C]" and "length rowCells \<le> C"
    and "rowFree rowCells" and "colFree board rowCells"
  shows "length cells' = C \<and> rowFree cells' \<and> colFree board cells'"
  using assms
proof (induction cs arbitrary: rowCells n)
  case Nil
  have "[length rowCells..<C] = []" using Nil.prems(2) by simp
  then have "length rowCells = C" using Nil.prems(3) by auto
  then show ?case using Nil by simp
next
  case (Cons c cs)
  have c: "c = length rowCells" "cs = [Suc (length rowCells)..<C]" "length rowCells < C"
    using Cons.prems(2)[symmetric] by (auto simp: upt_eq_Cons_conv)
  obtain ty n1 where dt: "drawType A rnd board rowCells (length board) c n = Some (ty, n1)"
    using Cons.prems(1) by (auto split: option.splits)
  let ?cell = "\<lparr>row = int (length board), col = int c,
                 id = ''cell-'' @ showNat (length board) @ ''-'' @ showNat c @ ''-'' @ showRandom (rnd n1),
                 type = ty,
                 special = (if ty = Some RAINBOW then RAINBOW_special else NONE),
                 status = IDLE, visualRow = int (length board), visualCol = int c, isBonus = None\<rparr>"
  let ?row = "rowCells @ [?cell]"
  have run: "buildRow A rnd board (length board) cs (?row, n1 + 1) = Some (cells', n')"
    using Cons.prems(1) dt by simp
  from drawType_accept[OF dt]
  have acc: "\<not> (2 \<le> c \<and> type (rowCells ! (c - 1)) = ty \<and> type (rowCells ! (c - 2)) = ty)"
    "\<not> (2 \<le> length board \<and> type (board ! (length board - 1) ! c) = ty \<and>
        type (board ! (length board - 2) ! c) = ty)" by blast+
  have rf: "rowFree ?row"
    unfolding rowFree_def
  proof (intro allI impI)
    fix j assume j: "j + 2 < length ?row"
    show "\<not> (type (?row ! (j + 1)) = type (?row ! j) \<and> type (?row ! (j + 2)) = type (?row ! j))"
    proof (cases "j + 2 < length rowCells")
      case True
      then show ?thesis using Cons.prems(4) by (simp add: rowFree_def nth_append)
    next
      case False
      then have e: "j + 2 = c" using j c(1) by simp
      then have i: "j + 1 = c - 1" "j = c - 2" by simp_all
      have "?row ! (j + 2) = ?cell" "?row ! (j + 1) = rowCells ! (c - 1)" "?row ! j = rowCells ! (c - 2)"
        unfolding i(1) using e c(1) i(2) by (simp_all add: nth_append)
      moreover have "2 \<le> c" using e by simp
      ultimately show ?thesis using acc(1) by auto
    qed
  qed
  have cf: "colFree board ?row"
    unfolding colFree_def
  proof (intro allI impI)
    fix j assume j: "j < length ?row" and b: "2 \<le> length board"
    show "\<not> (type (board ! (length board - 1) ! j) = type (?row ! j) \<and>
           type (board ! (length board - 2) ! j) = type (?row ! j))"
    proof (cases "j < length rowCells")
      case True
      then show ?thesis using Cons.prems(5) b by (simp add: colFree_def nth_append)
    next
      case False
      then have "j = c" using j c(1) by simp
      then have "?row ! j = ?cell" using c(1) by (simp add: nth_append)
      then show ?thesis using acc(2) b \<open>j = c\<close> by auto
    qed
  qed
  have "cs = [length ?row..<C]" "length ?row \<le> C" using c by simp_all
  from Cons.IH[OF run this rf cf] show ?case .
qed


lemma buildRows_inv:
  assumes "buildRows A rnd rs (board, n) = Some (board', n')"
    and "rs = [length board..<R]" and "length board \<le> R" and "boardFree board"
  shows "length board' = R \<and> boardFree board'"
  using assms
proof (induction rs arbitrary: board n)
  case Nil
  have "[length board..<R] = []" using Nil.prems(2) by simp
  then have "length board = R" using Nil.prems(3) by auto
  then show ?case using Nil by simp
next
  case (Cons r rs)
  have r: "r = length board" "rs = [Suc (length board)..<R]" "length board < R"
    using Cons.prems(2)[symmetric] by (auto simp: upt_eq_Cons_conv)
  obtain cells n1 where br: "buildRow A rnd board (length board) [0..<GRID_COLS] ([], n) = Some (cells, n1)"
    using Cons.prems(1) r(1) by (auto split: option.splits)
  have run: "buildRows A rnd rs (board @ [cells], n1) = Some (board', n')"
    using Cons.prems(1) br r(1) by simp
  have "[0..<GRID_COLS] = [length ([]::Cell list)..<GRID_COLS]" by simp
  from buildRow_inv[OF br this]
  have cells: "length cells = GRID_COLS" "rowFree cells" "colFree board cells"
    by (simp_all add: rowFree_def colFree_def)
  from Cons.prems(4) have rowsOK: "\<forall>cells \<in> set board. length cells = GRID_COLS \<and> rowFree cells"
    and colsOK: "\<forall>i j. i + 2 < length board \<and> j < GRID_COLS \<longrightarrow>
        \<not> (type (board ! (i + 1) ! j) = type (board ! i ! j) \<and>
           type (board ! (i + 2) ! j) = type (board ! i ! j))"
    unfolding boardFree_def by blast+
  let ?b = "board @ [cells]"
  have 1: "\<forall>cells \<in> set ?b. length cells = GRID_COLS \<and> rowFree cells"
    using rowsOK cells by simp
  have 2: "\<forall>i j. i + 2 < length ?b \<and> j < GRID_COLS \<longrightarrow>
        \<not> (type (?b ! (i + 1) ! j) = type (?b ! i ! j) \<and>
           type (?b ! (i + 2) ! j) = type (?b ! i ! j))"
  proof (intro allI impI)
    fix i j assume ij: "i + 2 < length ?b \<and> j < GRID_COLS"
    show "\<not> (type (?b ! (i + 1) ! j) = type (?b ! i ! j) \<and>
           type (?b ! (i + 2) ! j) = type (?b ! i ! j))"
    proof (cases "i + 2 < length board")
      case True
      then show ?thesis using colsOK ij by (simp add: nth_append)
    next
      case False
      then have e: "i + 2 = length board" using ij by simp
      then have i: "length board - 1 = i + 1" "length board - 2 = i" "2 \<le> length board"
        by simp_all
      have n: "?b ! (i + 2) = cells" "?b ! (i + 1) = board ! (i + 1)" "?b ! i = board ! i"
        using e by (simp_all add: nth_append)
      have "\<not> (type (board ! (length board - 1) ! j) = type (cells ! j) \<and>
           type (board ! (length board - 2) ! j) = type (cells ! j))"
        using cells(1,3) ij i(3) unfolding colFree_def by simp
      then show ?thesis unfolding n i by metis
    qed
  qed
  have bf: "boardFree ?b" unfolding boardFree_def using 1 2 by blast
  have "rs = [length ?b..<R]" "length ?b \<le> R" using r by simp_all
  from Cons.IH[OF run this bf] show ?case .
qed

lemma hits_empty: "\<not> (f (c + 1) = f c \<and> f (c + 2) = f c) \<Longrightarrow> hits f n c = {}"
  unfolding hits_def by (rule if_not_P) blast

text \<open>
  C7. Whatever the allowed types and the random draws, a board that \<open>createInitialBoard\<close>
  returns has the grid's shape and contains no match: \<open>findMatches\<close> of it is empty.
\<close>

theorem createInitialBoard_no_matches:
  assumes "createInitialBoard allowedTypes rnd n = Some (board, n')"
  shows "gridShape board \<and> findMatches board = []"
proof -
  have run: "buildRows allowedTypes rnd [0..<GRID_ROWS] ([], n) = Some (board, n')"
    using assms by (simp add: createInitialBoard_def)
  have "[0..<GRID_ROWS] = [length ([]::Cell list list)..<GRID_ROWS]" by simp
  from buildRows_inv[OF run this]
  have len: "length board = GRID_ROWS" and bf: "boardFree board"
    by (simp_all add: boardFree_def)
  from bf have rowsOK: "\<forall>cells \<in> set board. length cells = GRID_COLS \<and> rowFree cells"
    and colsOK: "\<forall>i j. i + 2 < length board \<and> j < GRID_COLS \<longrightarrow>
        \<not> (type (board ! (i + 1) ! j) = type (board ! i ! j) \<and>
           type (board ! (i + 2) ! j) = type (board ! i ! j))"
    unfolding boardFree_def by blast+
  have gs: "gridShape board" unfolding gridShape_def using len rowsOK by blast
  have h: "hits (\<lambda>j. type (board ! r ! j)) GRID_COLS c = {}"
    if "r \<in> {0..<GRID_ROWS}" "c \<in> {0..<GRID_COLS - 2}" for r c
  proof -
    have "board ! r \<in> set board" using that len by simp
    then have "length (board ! r) = GRID_COLS" "rowFree (board ! r)" using rowsOK by blast+
    moreover have "c + 2 < GRID_COLS" using that by (simp add: GRID_COLS_def)
    ultimately have "\<not> (type (board ! r ! (c + 1)) = type (board ! r ! c) \<and>
        type (board ! r ! (c + 2)) = type (board ! r ! c))"
      unfolding rowFree_def by simp
    then show ?thesis by (rule hits_empty)
  qed
  have v: "hits (\<lambda>j. type (board ! j ! c)) GRID_ROWS r = {}"
    if "c \<in> {0..<GRID_COLS}" "r \<in> {0..<GRID_ROWS - 2}" for r c
  proof -
    have "r + 2 < length board" "c < GRID_COLS" using that len by (simp_all add: GRID_ROWS_def)
    then have "\<not> (type (board ! (r + 1) ! c) = type (board ! r ! c) \<and>
        type (board ! (r + 2) ! c) = type (board ! r ! c))"
      using colsOK by blast
    then show ?thesis by (rule hits_empty)
  qed
  have "set (findMatches board) = {}" unfolding findMatches_hits using h v by simp
  then show ?thesis using gs by simp
qed


(* SLOW-BEGIN *)
theorem createInitialBoard_no_matches_witness:
  "\<exists>board n'. createInitialBoard levelOneTypes exampleRnd 0 = Some (board, n') \<and>
      gridShape board \<and> findMatches board = []"
proof -
  have "createInitialBoard levelOneTypes exampleRnd 0 \<noteq> None" by code_simp
  then obtain board n' where run: "createInitialBoard levelOneTypes exampleRnd 0 = Some (board, n')"
    by auto
  from createInitialBoard_no_matches[OF run] run show ?thesis by blast
qed
(* SLOW-END *)

section \<open>Verification: expansion by special cells\<close>
















section \<open>Verification: swapping two wildcard cells\<close>










section \<open>Verification: placement of a new special cell\<close>

lemma classified_length: "classifyMatchGroup grp \<noteq> NONE \<Longrightarrow> 4 \<le> length grp"
  by (rule ccontr) (simp add: classifyMatchGroup_def)

text \<open>
  C5 (as amended). For a group that creates a special cell: when an anchor is supplied and a
  cell of the group lies at the anchor, the chosen cell is a cell of the group at the anchor;
  when an anchor is supplied and no cell of the group lies there, the chosen cell is the first
  element of the group; when no anchor is supplied, it is the element at index
  \<open>length div 2\<close>. In every case the pass registers the chosen cell's identifier with the
  group's special kind.
\<close>

theorem chooseCandidate_placement:
  assumes "classifyMatchGroup grp \<noteq> NONE"
  shows "(\<forall>target :: Position. (\<exists>c \<in> set grp. row c = row target \<and> col c = col target) \<longrightarrow>
            chooseCandidate grp (Some target) \<in> set grp \<and>
            row (chooseCandidate grp (Some target)) = row target \<and>
            col (chooseCandidate grp (Some target)) = col target) \<and>
         (\<forall>target :: Position. \<not> (\<exists>c \<in> set grp. row c = row target \<and> col c = col target) \<longrightarrow>
            chooseCandidate grp (Some target) = grp ! 0 \<and> grp ! 0 \<in> set grp) \<and>
         chooseCandidate grp None = grp ! (length grp div 2) \<and>
         grp ! (length grp div 2) \<in> set grp \<and>
         (\<forall>anchor st. fst (scoreGroup currentLevel currentCombo anchor grp st)
                         (id (chooseCandidate grp anchor)) = Some (classifyMatchGroup grp))"
proof -
  have len: "4 \<le> length grp" using assms by (rule classified_length)
  have 1: "chooseCandidate grp (Some target) \<in> set grp \<and>
            row (chooseCandidate grp (Some target)) = row target \<and>
            col (chooseCandidate grp (Some target)) = col target"
    if "\<exists>c \<in> set grp. row c = row target \<and> col c = col target" for target :: Position
  proof -
    from that obtain x where "find (\<lambda>c. row c = row target \<and> col c = col target) grp = Some x"
      by (cases "find (\<lambda>c. row c = row target \<and> col c = col target) grp")
         (auto simp: find_None_iff)
    moreover from this have "x \<in> set grp \<and> row x = row target \<and> col x = col target"
      by (auto simp: find_Some_iff)
    ultimately show ?thesis by (simp add: chooseCandidate_def)
  qed
  have 2: "chooseCandidate grp (Some target) = grp ! 0 \<and> grp ! 0 \<in> set grp"
    if "\<not> (\<exists>c \<in> set grp. row c = row target \<and> col c = col target)" for target :: Position
  proof -
    have "find (\<lambda>c. row c = row target \<and> col c = col target) grp = None"
      using that by (simp add: find_None_iff)
    moreover have "grp ! 0 \<in> set grp" using len by (intro nth_mem) auto
    ultimately show ?thesis by (simp add: chooseCandidate_def)
  qed
  have 3: "chooseCandidate grp None = grp ! (length grp div 2)" by (simp add: chooseCandidate_def)
  have 4: "grp ! (length grp div 2) \<in> set grp" using len by (intro nth_mem) auto
  have 5: "fst (scoreGroup currentLevel currentCombo anchor grp st) (id (chooseCandidate grp anchor)) =
      Some (classifyMatchGroup grp)" for anchor st
    using assms by (simp add: scoreGroup_def Let_def)
  show ?thesis using 1 2 3 4 5 by blast
qed

theorem chooseCandidate_placement_witness:
  "classifyMatchGroup (cellsAt [(0, 2), (1, 2), (2, 2), (3, 2)]) \<noteq> NONE \<and>
   row (chooseCandidate (cellsAt [(0, 2), (1, 2), (2, 2), (3, 2)]) (Some \<lparr>row = 1, col = 2\<rparr>)) = 1 \<and>
   chooseCandidate (cellsAt [(0, 2), (1, 2), (2, 2), (3, 2)]) (Some \<lparr>row = 0, col = 3\<rparr>) =
     cellsAt [(0, 2), (1, 2), (2, 2), (3, 2)] ! 0 \<and>
   chooseCandidate (cellsAt [(0, 2), (1, 2), (2, 2), (3, 2)]) None =
     cellsAt [(0, 2), (1, 2), (2, 2), (3, 2)] ! 2"
proof -
  let ?g = "cellsAt [(0, 2), (1, 2), (2, 2), (3, 2)]"
  have c: "classifyMatchGroup ?g \<noteq> NONE"
    by (simp add: classifyMatchGroup_def cellsAt_def mkCell_def)
  have inG: "\<exists>c \<in> set ?g. row c = row \<lparr>row = 1, col = 2\<rparr> \<and> col c = col \<lparr>row = 1, col = 2\<rparr>"
    by (simp add: cellsAt_def mkCell_def)
  have notInG: "\<not> (\<exists>c \<in> set ?g. row c = row \<lparr>row = 0, col = 3\<rparr> \<and> col c = col \<lparr>row = 0, col = 3\<rparr>)"
    by (simp add: cellsAt_def mkCell_def)
  have l: "length ?g div 2 = 2" by (simp add: cellsAt_def)
  note t = chooseCandidate_placement[OF c, of 1 0]
  have a: "row (chooseCandidate ?g (Some \<lparr>row = 1, col = 2\<rparr>)) = 1"
    using t[THEN conjunct1, rule_format, OF inG] by simp
  have b: "chooseCandidate ?g (Some \<lparr>row = 0, col = 3\<rparr>) = ?g ! 0"
    using t[THEN conjunct2, THEN conjunct1, rule_format, OF notInG] by simp
  have d: "chooseCandidate ?g None = ?g ! 2"
    using t[THEN conjunct2, THEN conjunct2, THEN conjunct1] unfolding l .
  show ?thesis using c a b d by blast
qed

text \<open>
  The specification's placement fails when the anchor is no member of the group: the four
  cells of column 2 in rows 0 to 3, with the anchor at \<open>(0, 3)\<close>, give the first cell of the
  group where the specification names the third.
\<close>

theorem specCandidate_counterexample:
  "classifyMatchGroup (cellsAt [(0, 2), (1, 2), (2, 2), (3, 2)]) = ROW_BLAST \<and>
   chooseCandidate (cellsAt [(0, 2), (1, 2), (2, 2), (3, 2)]) (Some \<lparr>row = 0, col = 3\<rparr>) \<noteq>
     specCandidate (cellsAt [(0, 2), (1, 2), (2, 2), (3, 2)]) \<lparr>row = 0, col = 3\<rparr>"
  by (simp add: classifyMatchGroup_def chooseCandidate_def specCandidate_def cellsAt_def mkCell_def)

(* THMS-END *)

end
